theory Spec2Isabelle
  imports Main
begin

section \<open>The caching proxy of \<^verbatim>\<open>proxy.c\<close>\<close>

text \<open>
  The development embeds the sequential behaviour of \<^verbatim>\<open>proxy.c\<close>: the cache store
  (\<^verbatim>\<open>check_cache\<close>, \<^verbatim>\<open>add_to_cache\<close>, \<^verbatim>\<open>remove_oldest\<close>, \<^verbatim>\<open>update_counter\<close>), the URI parser
  (\<^verbatim>\<open>extract_uri\<close>), the header rewriter (\<^verbatim>\<open>process_headers\<close>), the error responder
  (\<^verbatim>\<open>send_error\<close>) and the request pipeline (\<^verbatim>\<open>process_request\<close>).

  Conventions.
  \<^item> A C string is the list of the characters before its terminating NUL, so \<^verbatim>\<open>strcmp\<close>
    is equality and \<^verbatim>\<open>strlen\<close> is \<open>length\<close>. A buffer filled from a socket is a list
    of raw bytes that may contain NUL; \<open>c_str\<close> reads it as a C string.
  \<^item> A C \<^verbatim>\<open>int\<close> is an \<open>int\<close> in the range of 32 bits; every arithmetic operation of
    the source on an \<^verbatim>\<open>int\<close> is followed by \<open>wrap32\<close>, the two's complement wrap-around.
  \<^item> The linked list of cache nodes is the list of its nodes from \<^verbatim>\<open>first\<close> on; a node
    pointer is the position of the node in that list, \<^verbatim>\<open>NULL\<close> is \<open>None\<close>.
  \<^item> Reads and writes outside a buffer and reads of a local that was never assigned
    are results of their own (\<open>fault\<close>); a loop that does not end is the result \<open>None\<close>.
  \<^item> One operation runs at a time: the semaphores and the reader count of the cache,
    which every operation leaves as it found them, are not part of the state.
\<close>

subsection \<open>Constants and machine integers\<close>

definition MAX_CACHE_SIZE :: int where
  "MAX_CACHE_SIZE = 1049000"

definition MAX_OBJECT_SIZE :: int where
  "MAX_OBJECT_SIZE = 102400"

text \<open>
  Modelled from the spec: the macro \<^verbatim>\<open>MAXLINE\<close> of \<^verbatim>\<open>csapp.h\<close>, the size of every line buffer
  (the per-line buffer budget of 8 KiB).
\<close>

definition MAXLINE :: nat where
  "MAXLINE = 8192"

definition INT_MAX :: int where
  "INT_MAX = 2147483647"

definition wrap32 :: "int \<Rightarrow> int" where
  "wrap32 x = (x + 2147483648) mod 4294967296 - 2147483648"

datatype fault = Uninitialised_read | Buffer_overflow | Out_of_bounds | Process_exit

subsection \<open>C strings\<close>

definition NUL :: char where
  "NUL = CHR 0x00"

definition c_str :: "char list \<Rightarrow> string" where
  "c_str buf = takeWhile (\<lambda>c. c \<noteq> NUL) buf"

text \<open>\<^verbatim>\<open>strncmp(s1, s2, n) == 0\<close> on C strings.\<close>

definition strncmp_eq :: "string \<Rightarrow> string \<Rightarrow> nat \<Rightarrow> bool" where
  "strncmp_eq s1 s2 n = (take n s1 = take n s2)"

text \<open>A string fits a buffer of \<^verbatim>\<open>MAXLINE\<close> bytes when there is room for its terminator.\<close>

definition fits :: "string \<Rightarrow> bool" where
  "fits s = (length s < MAXLINE)"

subsection \<open>The cache store\<close>

record cache_node =
  url :: string
  content :: "char list"
  content_size :: int
  access_time :: int

record cache_manager =
  first :: "cache_node list"
  current_size :: int

record globals =
  global_cache :: cache_manager
  access_counter :: int

definition initialize_cache :: cache_manager where
  "initialize_cache = \<lparr>first = [], current_size = 0\<rparr>"

definition init_globals :: globals where
  "init_globals = \<lparr>global_cache = initialize_cache, access_counter = 0\<rparr>"

text \<open>\<^verbatim>\<open>int update_counter() { return ++access_counter; }\<close>\<close>

definition update_counter :: "globals \<Rightarrow> int \<times> globals" where
  "update_counter g =
     (let t = wrap32 (access_counter g + 1) in (t, g\<lparr>access_counter := t\<rparr>))"

text \<open>
  The condition of the lookup loop on one node. With an empty \<open>uri\<close> and a node of
  another key the source reads \<^verbatim>\<open>uri[strlen(uri)-1]\<close>, one byte before the string.
\<close>

definition url_matches :: "string \<Rightarrow> string \<Rightarrow> fault + bool" where
  "url_matches u uri =
     (if u = uri then Inr True
      else if uri = [] then Inl Out_of_bounds
      else Inr (last uri = CHR ''/'' \<and> strncmp_eq uri u (length uri - 1)))"

text \<open>The \<^verbatim>\<open>for\<close> loop of \<^verbatim>\<open>check_cache\<close>: the position of the first node that matches.\<close>

fun find_node :: "cache_node list \<Rightarrow> string \<Rightarrow> nat \<Rightarrow> fault + nat option" where
  "find_node [] uri i = Inr None"
| "find_node (n # ns) uri i =
     (case url_matches (url n) uri of
        Inl f \<Rightarrow> Inl f
      | Inr True \<Rightarrow> Inr (Some i)
      | Inr False \<Rightarrow> find_node ns uri (Suc i))"

definition check_cache :: "globals \<Rightarrow> string \<Rightarrow> fault + (nat option \<times> globals)" where
  "check_cache g uri =
     (let c = global_cache g in
      case find_node (first c) uri 0 of
        Inl f \<Rightarrow> Inl f
      | Inr None \<Rightarrow> Inr (None, g)
      | Inr (Some i) \<Rightarrow>
          (let (t, g') = update_counter g
           in Inr (Some i,
                g'\<lparr>global_cache := c\<lparr>first := (first c)[i := (first c ! i)\<lparr>access_time := t\<rparr>]\<rparr>\<rparr>)))"

text \<open>
  The scan of \<^verbatim>\<open>remove_oldest\<close> over the nodes from \<open>current\<close> on: \<open>cur\<close> is the position of
  \<open>current\<close>, \<open>prev\<close> the one of the node before it, and the result is the pair
  \<open>(to_remove_prev, to_remove)\<close>.
\<close>

fun find_oldest ::
  "cache_node list \<Rightarrow> nat \<Rightarrow> nat option \<Rightarrow> int \<Rightarrow> nat option \<Rightarrow> nat \<Rightarrow> nat option \<times> nat" where
  "find_oldest [] cur prev oldest to_remove_prev to_remove = (to_remove_prev, to_remove)"
| "find_oldest (n # ns) cur prev oldest to_remove_prev to_remove =
     (if access_time n < oldest
      then find_oldest ns (Suc cur) (Some cur) (access_time n) prev cur
      else find_oldest ns (Suc cur) (Some cur) oldest to_remove_prev to_remove)"

text \<open>
  Unlinking: \<^verbatim>\<open>to_remove_prev->next_ptr = to_remove->next_ptr\<close> keeps the nodes up to
  \<open>to_remove_prev\<close> and goes on after \<open>to_remove\<close>; without a predecessor the list starts
  after \<open>to_remove\<close>.
\<close>

definition remove_oldest :: "cache_manager \<Rightarrow> cache_manager" where
  "remove_oldest c =
     (case first c of
        [] \<Rightarrow> c
      | n # ns \<Rightarrow>
          (let (to_remove_prev, to_remove) =
                 find_oldest (first c) 0 None (access_time n) None 0
           in c\<lparr>first :=
                  (case to_remove_prev of
                     Some p \<Rightarrow> take (Suc p) (first c) @ drop (Suc to_remove) (first c)
                   | None \<Rightarrow> drop (Suc to_remove) (first c)),
                current_size :=
                  wrap32 (current_size c - content_size (first c ! to_remove))\<rparr>))"

text \<open>
  The eviction loop of \<^verbatim>\<open>add_to_cache\<close>:
  \<^verbatim>\<open>while (cache->current_size + size > MAX_CACHE_SIZE) remove_oldest(cache);\<close>
\<close>

partial_function (option) evict_loop :: "cache_manager \<Rightarrow> int \<Rightarrow> cache_manager option" where
  "evict_loop c sz =
     (if wrap32 (current_size c + sz) > MAX_CACHE_SIZE
      then evict_loop (remove_oldest c) sz
      else Some c)"

declare evict_loop.simps [code]

text \<open>
  \<^verbatim>\<open>add_to_cache\<close>. \<^verbatim>\<open>strcpy\<close> needs the key to fit \<^verbatim>\<open>url[MAXLINE]\<close>, and \<^verbatim>\<open>memcpy\<close> reads \<open>sz\<close>
  bytes of \<open>buffer\<close>. The allocation is taken to succeed.
\<close>

definition add_to_cache ::
  "globals \<Rightarrow> string \<Rightarrow> char list \<Rightarrow> int \<Rightarrow> (fault + globals) option" where
  "add_to_cache g uri buffer sz =
     (if sz > MAX_OBJECT_SIZE then Some (Inr g)
      else
        case evict_loop (global_cache g) sz of
          None \<Rightarrow> None
        | Some c \<Rightarrow>
            if \<not> fits uri then Some (Inl Buffer_overflow)
            else if sz < 0 \<or> int (length buffer) < sz then Some (Inl Out_of_bounds)
            else
              (let (t, g') = update_counter g;
                   new_node = \<lparr>url = uri, content = take (nat sz) buffer,
                               content_size = sz, access_time = t\<rparr>
               in Some (Inr (g'\<lparr>global_cache :=
                    c\<lparr>first := new_node # first c,
                      current_size := wrap32 (current_size c + sz)\<rparr>\<rparr>))))"

subsection \<open>Characters and \<^verbatim>\<open>sscanf\<close>\<close>

definition CR :: char where
  "CR = CHR 0x0D"

definition LF :: char where
  "LF = CHR 0x0A"

definition CRLF :: string where
  "CRLF = [CR, LF]"

text \<open>\<^verbatim>\<open>isspace\<close> in the C locale: space, \<^verbatim>\<open>\t\<close>, \<^verbatim>\<open>\n\<close>, \<^verbatim>\<open>\v\<close>, \<^verbatim>\<open>\f\<close>, \<^verbatim>\<open>\r\<close>.\<close>

definition c_isspace :: "char \<Rightarrow> bool" where
  "c_isspace c =
     (c = CHR 0x20 \<or> c = CHR 0x09 \<or> c = CHR 0x0A \<or> c = CHR 0x0B \<or> c = CHR 0x0C \<or> c = CHR 0x0D)"

definition c_tolower :: "char \<Rightarrow> char" where
  "c_tolower c =
     (let k = (of_char c :: nat) in if 65 \<le> k \<and> k \<le> 90 then char_of (k + 32) else c)"

text \<open>\<^verbatim>\<open>strcasecmp(s1, s2) == 0\<close>\<close>

definition strcasecmp_eq :: "string \<Rightarrow> string \<Rightarrow> bool" where
  "strcasecmp_eq s1 s2 = (map c_tolower s1 = map c_tolower s2)"

text \<open>
  One conversion \<^verbatim>\<open>%s\<close>: white space is skipped, then the characters up to the next white
  space are stored; at the end of the input nothing is stored and the scan stops.
\<close>

definition scan_s :: "string \<Rightarrow> (string \<times> string) option" where
  "scan_s s =
     (let s' = dropWhile c_isspace s
      in if s' = [] then None
         else Some (takeWhile (\<lambda>c. \<not> c_isspace c) s', dropWhile (\<lambda>c. \<not> c_isspace c) s'))"

text \<open>
  \<^verbatim>\<open>sscanf(buffer, "%s %s %s", method, uri, version)\<close>: the strings that are assigned, in
  order. The white space of the format is the one each \<^verbatim>\<open>%s\<close> skips anyway.
\<close>

definition sscanf3 :: "string \<Rightarrow> string list" where
  "sscanf3 s =
     (case scan_s s of
        None \<Rightarrow> []
      | Some (m, r1) \<Rightarrow>
          (case scan_s r1 of
             None \<Rightarrow> [m]
           | Some (u, r2) \<Rightarrow>
               (case scan_s r2 of
                  None \<Rightarrow> [m, u]
                | Some (v, r3) \<Rightarrow> [m, u, v])))"

subsection \<open>The error responder\<close>

text \<open>Every line is formatted into \<^verbatim>\<open>buf[MAXLINE]\<close> and then written to the client.\<close>

definition send_error :: "string \<Rightarrow> string \<Rightarrow> string \<Rightarrow> string \<Rightarrow> fault + char list" where
  "send_error cause errnum shortmsg longmsg =
     (let bufs =
        [''HTTP/1.0 '' @ errnum @ '' '' @ shortmsg @ CRLF,
         ''Content-type: text/html'' @ CRLF @ CRLF,
         ''<html><title>Proxy Error</title>'',
         ''<body bgcolor='' @ [CHR 0x22] @ ''ffffff'' @ [CHR 0x22] @ ''>'' @ CRLF,
         errnum @ '': '' @ shortmsg @ CRLF,
         ''<p>'' @ longmsg @ '': '' @ cause @ CRLF,
         ''<hr><em>Web Proxy Server</em>'' @ CRLF]
      in if list_all fits bufs then Inr (concat bufs) else Inl Buffer_overflow)"

subsection \<open>The URI parser\<close>

record uri_parts =
  host :: string
  port :: string
  path :: string
  request_header :: string

text \<open>\<^verbatim>\<open>strstr\<close> and \<^verbatim>\<open>strchr\<close> return the rest of the string from the first occurrence on.\<close>

fun strstr :: "string \<Rightarrow> string \<Rightarrow> string option" where
  "strstr [] needle = (if needle = [] then Some [] else None)"
| "strstr (c # cs) needle =
     (if take (length needle) (c # cs) = needle then Some (c # cs) else strstr cs needle)"

definition strchr :: "string \<Rightarrow> char \<Rightarrow> string option" where
  "strchr s c = (if c \<in> set s then Some (dropWhile (\<lambda>x. x \<noteq> c) s) else None)"

definition extract_uri :: "string \<Rightarrow> fault + uri_parts" where
  "extract_uri uri =
     (let host_start = (case strstr uri ''//'' of Some s \<Rightarrow> drop 2 s | None \<Rightarrow> uri);
          in_host = (\<lambda>c. c \<noteq> CHR ''/'' \<and> c \<noteq> CHR '':'');
          h = takeWhile in_host host_start;
          host_end = dropWhile in_host host_start;
          (prt, pth) =
            (if host_end \<noteq> [] \<and> hd host_end = CHR '':'' then
               (let port_start = tl host_end
                in case strchr port_start (CHR ''/'') of
                     Some port_end \<Rightarrow>
                       (take (length port_start - length port_end) port_start, port_end)
                   | None \<Rightarrow> (port_start, ''/''))
             else (''80'', host_end));
          hdr = ''GET '' @ pth @ '' HTTP/1.0'' @ CRLF @ ''Host: '' @ h @ CRLF
      in if fits h \<and> fits prt \<and> fits pth \<and> fits hdr
         then Inr \<lparr>host = h, port = prt, path = pth, request_header = hdr\<rparr>
         else Inl Buffer_overflow)"

subsection \<open>The header rewriter\<close>

definition user_agent :: string where
  "user_agent =
     ''User-Agent: Mozilla/5.0 (X11; Linux x86_64; rv:10.0.3) Gecko/20120305 Firefox/10.0.3'' @ CRLF"

definition connection_hdr :: string where
  "connection_hdr = ''Connection: close'' @ CRLF"

definition proxy_connection :: string where
  "proxy_connection = ''Proxy-Connection: close'' @ CRLF"

text \<open>The condition of \<^verbatim>\<open>continue\<close> in \<^verbatim>\<open>process_headers\<close>.\<close>

definition is_replaced :: "char list \<Rightarrow> bool" where
  "is_replaced buf =
     (strncmp_eq (c_str buf) ''Host:'' 5 \<or>
      strncmp_eq (c_str buf) ''User-Agent:'' 11 \<or>
      strncmp_eq (c_str buf) ''Connection:'' 11 \<or>
      strncmp_eq (c_str buf) ''Proxy-Connection:'' 17)"

text \<open>
  The \<^verbatim>\<open>while\<close> loop of \<^verbatim>\<open>process_headers\<close>. The argument lists what the successive calls of
  \<^verbatim>\<open>Rio_readlineb\<close> on the client put into \<^verbatim>\<open>buf\<close>; the end of the list, or an empty
  element, is the end of the input. What is written is \<^verbatim>\<open>strlen(buf)\<close> bytes of \<^verbatim>\<open>buf\<close>.
\<close>

fun relay_headers :: "char list list \<Rightarrow> char list" where
  "relay_headers [] = []"
| "relay_headers (buf # rest) =
     (if buf = [] then []
      else if c_str buf = CRLF then []
      else if is_replaced buf then relay_headers rest
      else c_str buf @ relay_headers rest)"

definition process_headers :: "char list list \<Rightarrow> char list" where
  "process_headers client_rio =
     user_agent @ connection_hdr @ proxy_connection @ relay_headers client_rio @ CRLF"

subsection \<open>The request pipeline\<close>

record tee =
  object_buffer :: "char list"
  total_size :: int
  client_out :: "char list"

definition memcpy_at :: "char list \<Rightarrow> nat \<Rightarrow> char list \<Rightarrow> char list" where
  "memcpy_at dst off src = take off dst @ src @ drop (off + length src) dst"

text \<open>Conversion to \<^verbatim>\<open>size_t\<close>, 64 bits without sign.\<close>

definition to_size_t :: "int \<Rightarrow> int" where
  "to_size_t x = x mod 18446744073709551616"

text \<open>
  The streaming loop of \<^verbatim>\<open>process_request\<close>. The argument lists what the successive calls
  of \<^verbatim>\<open>Rio_readlineb\<close> on the origin return. \<open>n\<close> is a \<^verbatim>\<open>size_t\<close>, so \<^verbatim>\<open>total_size + n\<close> is
  computed without sign and converted back for the assignment. Once \<^verbatim>\<open>total_size\<close> has
  wrapped to a negative value the test without sign can pass again, and \<^verbatim>\<open>memcpy\<close> then
  writes before \<^verbatim>\<open>object_buffer\<close>.
\<close>

fun stream_response :: "char list list \<Rightarrow> tee \<Rightarrow> fault + tee" where
  "stream_response [] t = Inr t"
| "stream_response (buffer # rest) t =
     (let n = int (length buffer) in
      if n > 0 then
        if to_size_t (to_size_t (total_size t) + n) < MAX_OBJECT_SIZE then
          if total_size t < 0 then Inl Out_of_bounds
          else
            stream_response rest
              \<lparr>object_buffer = memcpy_at (object_buffer t) (nat (total_size t)) buffer,
               total_size = wrap32 (to_size_t (to_size_t (total_size t) + n)),
               client_out = client_out t @ buffer\<rparr>
        else
          stream_response rest
            \<lparr>object_buffer = object_buffer t,
             total_size = wrap32 (to_size_t (to_size_t (total_size t) + n)),
             client_out = client_out t @ buffer\<rparr>
      else Inr t)"

definition tee_init :: tee where
  "tee_init = \<lparr>object_buffer = replicate (nat MAX_OBJECT_SIZE) NUL, total_size = 0, client_out = []\<rparr>"

text \<open>
  What a run of \<^verbatim>\<open>process_request\<close> did: the bytes written to the client, the key of the
  cache probe if there was one, and the origin connection (host, port, bytes written)
  if one was opened.
\<close>

record reply =
  client_bytes :: "char list"
  probed :: "string option"
  origin :: "(string \<times> string \<times> char list) option"

definition no_reply :: reply where
  "no_reply = \<lparr>client_bytes = [], probed = None, origin = None\<rparr>"

text \<open>
  \<^verbatim>\<open>process_request\<close> from the cache probe on. \<open>open_clientfd\<close> stands for the network:
  for a host and a port, the lines the origin answers with, or \<open>None\<close> when the connection
  fails (the wrapper \<^verbatim>\<open>Open_clientfd\<close> then ends the process).
\<close>

definition serve_uri ::
  "globals \<Rightarrow> string \<Rightarrow> char list list \<Rightarrow> (string \<Rightarrow> string \<Rightarrow> char list list option) \<Rightarrow>
   (fault + reply \<times> globals) option" where
  "serve_uri g uri headers open_clientfd =
     (case check_cache g uri of
        Inl f \<Rightarrow> Some (Inl f)
      | Inr (Some i, g1) \<Rightarrow>
          (let cached = first (global_cache g1) ! i
           in Some (Inr (\<lparr>client_bytes = take (nat (content_size cached)) (content cached),
                          probed = Some uri, origin = None\<rparr>, g1)))
      | Inr (None, g1) \<Rightarrow>
          (case extract_uri uri of
             Inl f \<Rightarrow> Some (Inl f)
           | Inr p \<Rightarrow>
               (case open_clientfd (host p) (port p) of
                  None \<Rightarrow> Some (Inl Process_exit)
                | Some server_rio \<Rightarrow>
                    (let sent = request_header p @ process_headers headers
                     in case stream_response server_rio tee_init of
                          Inl f \<Rightarrow> Some (Inl f)
                        | Inr t \<Rightarrow>
                            (let r = \<lparr>client_bytes = client_out t, probed = Some uri,
                                      origin = Some (host p, port p, sent)\<rparr>
                             in if total_size t \<le> MAX_OBJECT_SIZE then
                                  (case add_to_cache g1 uri (object_buffer t) (total_size t) of
                                     None \<Rightarrow> None
                                   | Some (Inl f) \<Rightarrow> Some (Inl f)
                                   | Some (Inr g2) \<Rightarrow> Some (Inr (r, g2)))
                                else Some (Inr (r, g1)))))))"

text \<open>
  \<^verbatim>\<open>process_request\<close>. \<open>client_rio\<close> lists what the successive calls of \<^verbatim>\<open>Rio_readlineb\<close> on
  the client return: the request line, then the header lines. \<^verbatim>\<open>method\<close> and \<^verbatim>\<open>uri\<close> are
  locals without initial value, which only \<^verbatim>\<open>sscanf\<close> assigns.
\<close>

definition process_request ::
  "globals \<Rightarrow> char list list \<Rightarrow> (string \<Rightarrow> string \<Rightarrow> char list list option) \<Rightarrow>
   (fault + reply \<times> globals) option" where
  "process_request g client_rio open_clientfd =
     (case client_rio of
        [] \<Rightarrow> Some (Inr (no_reply, g))
      | buffer # headers \<Rightarrow>
          if buffer = [] then Some (Inr (no_reply, g))
          else
            (case sscanf3 (c_str buffer) of
               [] \<Rightarrow> Some (Inl Uninitialised_read)
             | method # tokens \<Rightarrow>
                 if \<not> strcasecmp_eq method ''GET'' then
                   (case send_error method ''501'' ''Not Implemented''
                           ''This proxy only supports GET requests'' of
                      Inl f \<Rightarrow> Some (Inl f)
                    | Inr page \<Rightarrow> Some (Inr (no_reply\<lparr>client_bytes := page\<rparr>, g)))
                 else
                   (case tokens of
                      [] \<Rightarrow> Some (Inl Uninitialised_read)
                    | uri # _ \<Rightarrow> serve_uri g uri headers open_clientfd)))"

subsection \<open>Executions of the cache store\<close>

text \<open>
  The operations on the store, and what a sequence of them does from a state: the stamps
  that were written into nodes, in the order of their assignment, and the last state.
  A sequence with a fault or an eviction loop that does not end has no result.
\<close>

datatype op = Lookup string | Admit string "char list" int | Evict

definition exec :: "op \<Rightarrow> globals \<Rightarrow> (int list \<times> globals) option" where
  "exec p g =
     (case p of
        Lookup uri \<Rightarrow>
          (case check_cache g uri of
             Inl f \<Rightarrow> None
           | Inr (None, g') \<Rightarrow> Some ([], g')
           | Inr (Some i, g') \<Rightarrow> Some ([access_time (first (global_cache g') ! i)], g'))
      | Admit uri buffer sz \<Rightarrow>
          (case add_to_cache g uri buffer sz of
             Some (Inr g') \<Rightarrow>
               Some (if sz > MAX_OBJECT_SIZE then []
                     else [access_time (hd (first (global_cache g')))], g')
           | _ \<Rightarrow> None)
      | Evict \<Rightarrow> Some ([], g\<lparr>global_cache := remove_oldest (global_cache g)\<rparr>))"

fun run :: "op list \<Rightarrow> globals \<Rightarrow> (int list \<times> globals) option" where
  "run [] g = Some ([], g)"
| "run (p # ps) g =
     (case exec p g of
        None \<Rightarrow> None
      | Some (ts, g1) \<Rightarrow>
          (case run ps g1 of
             None \<Rightarrow> None
           | Some (ts', g2) \<Rightarrow> Some (ts @ ts', g2)))"

subsection \<open>Invariants of the store\<close>

definition keys :: "cache_manager \<Rightarrow> string list" where
  "keys c = map url (first c)"

text \<open>I1: the size kept in the store is the sum of the sizes of the nodes.\<close>

definition I1 :: "cache_manager \<Rightarrow> bool" where
  "I1 c = (current_size c = sum_list (map content_size (first c)))"

text \<open>I2: the store is within its capacity.\<close>

definition I2 :: "cache_manager \<Rightarrow> bool" where
  "I2 c = (current_size c \<le> MAX_CACHE_SIZE)"

text \<open>I3: every node holds a body of at most \<^verbatim>\<open>MAX_OBJECT_SIZE\<close> bytes.\<close>

definition I3 :: "cache_manager \<Rightarrow> bool" where
  "I3 c = list_all (\<lambda>e. 0 \<le> content_size e \<and> content_size e \<le> MAX_OBJECT_SIZE) (first c)"

text \<open>I4: no two nodes have the same key.\<close>

definition I4 :: "cache_manager \<Rightarrow> bool" where
  "I4 c = distinct (keys c)"

subsection \<open>Lines of a byte stream\<close>



text \<open>
  What one call of \<^verbatim>\<open>Rio_readlineb\<close> with a buffer of \<^verbatim>\<open>MAXLINE\<close> bytes can return before the end
  of the input: at least one byte and at most \<^verbatim>\<open>MAXLINE - 1\<close>.
\<close>

definition rio_chunk :: "char list \<Rightarrow> bool" where
  "rio_chunk buf = (buf \<noteq> [] \<and> length buf < MAXLINE)"



subsection \<open>Example states and inputs\<close>

definition three_nodes :: cache_manager where
  "three_nodes =
     \<lparr>first = [\<lparr>url = ''a'', content = ''xy'', content_size = 2, access_time = 5\<rparr>,
               \<lparr>url = ''b'', content = ''z'', content_size = 1, access_time = 3\<rparr>,
               \<lparr>url = ''c'', content = ''uvw'', content_size = 3, access_time = 4\<rparr>],
      current_size = 6\<rparr>"

definition stamped :: "int \<Rightarrow> globals" where
  "stamped t =
     \<lparr>global_cache = \<lparr>first = [\<lparr>url = ''k'', content = [], content_size = 0, access_time = t\<rparr>],
                       current_size = 0\<rparr>,
      access_counter = t\<rparr>"

definition full_store :: globals where
  "full_store =
     \<lparr>global_cache =
        \<lparr>first =
           [\<lparr>url = ''/o9'', content = replicate 100000 (CHR ''x''), content_size = 100000, access_time = 10\<rparr>,
            \<lparr>url = ''/o8'', content = replicate 100000 (CHR ''x''), content_size = 100000, access_time = 9\<rparr>,
            \<lparr>url = ''/o7'', content = replicate 100000 (CHR ''x''), content_size = 100000, access_time = 8\<rparr>,
            \<lparr>url = ''/o6'', content = replicate 100000 (CHR ''x''), content_size = 100000, access_time = 7\<rparr>,
            \<lparr>url = ''/o5'', content = replicate 100000 (CHR ''x''), content_size = 100000, access_time = 6\<rparr>,
            \<lparr>url = ''/o4'', content = replicate 100000 (CHR ''x''), content_size = 100000, access_time = 5\<rparr>,
            \<lparr>url = ''/o3'', content = replicate 100000 (CHR ''x''), content_size = 100000, access_time = 4\<rparr>,
            \<lparr>url = ''/o2'', content = replicate 100000 (CHR ''x''), content_size = 100000, access_time = 3\<rparr>,
            \<lparr>url = ''/o1'', content = replicate 100000 (CHR ''x''), content_size = 100000, access_time = 2\<rparr>,
            \<lparr>url = ''/o0'', content = replicate 100000 (CHR ''x''), content_size = 100000, access_time = 1\<rparr>],
         current_size = 1000000\<rparr>,
      access_counter = 10\<rparr>"

definition two_admits :: "op list" where
  "two_admits = [Admit ''k'' ''ab'' 2, Lookup ''k'', Admit ''j'' ''abc'' 3]"

definition after_two_admits :: globals where
  "after_two_admits =
     \<lparr>global_cache =
        \<lparr>first = [\<lparr>url = ''j'', content = ''abc'', content_size = 3, access_time = 3\<rparr>,
                  \<lparr>url = ''k'', content = ''ab'', content_size = 2, access_time = 2\<rparr>],
         current_size = 5\<rparr>,
      access_counter = 3\<rparr>"

definition after_hit :: globals where
  "after_hit =
     \<lparr>global_cache =
        \<lparr>first = [\<lparr>url = ''j'', content = ''abc'', content_size = 3, access_time = 3\<rparr>,
                  \<lparr>url = ''k'', content = ''ab'', content_size = 2, access_time = 4\<rparr>],
         current_size = 5\<rparr>,
      access_counter = 4\<rparr>"

definition after_third_admit :: globals where
  "after_third_admit =
     \<lparr>global_cache =
        \<lparr>first = [\<lparr>url = ''i'', content = ''a'', content_size = 1, access_time = 4\<rparr>,
                  \<lparr>url = ''j'', content = ''abc'', content_size = 3, access_time = 3\<rparr>,
                  \<lparr>url = ''k'', content = ''ab'', content_size = 2, access_time = 2\<rparr>],
         current_size = 6\<rparr>,
      access_counter = 4\<rparr>"

definition line1024 :: "char list" where
  "line1024 = replicate 1023 (CHR ''A'') @ [LF]"

definition origin_AAAA :: "string \<Rightarrow> string \<Rightarrow> char list list option" where
  "origin_AAAA h p = Some [''AAAA'']"

definition after_fetch :: globals where
  "after_fetch =
     \<lparr>global_cache =
        \<lparr>first = [\<lparr>url = ''http://h/x'', content = ''AAAA'', content_size = 4, access_time = 1\<rparr>],
         current_size = 4\<rparr>,
      access_counter = 1\<rparr>"

definition parts_h :: uri_parts where
  "parts_h = \<lparr>host = ''h'', port = ''80'', path = ''/x'',
              request_header = ''GET /x HTTP/1.0'' @ CRLF @ ''Host: h'' @ CRLF\<rparr>"


definition origin_100_lines :: "string \<Rightarrow> string \<Rightarrow> char list list option" where
  "origin_100_lines h p = Some (replicate 100 line1024)"


definition after_fetch_hit :: globals where
  "after_fetch_hit =
     \<lparr>global_cache =
        \<lparr>first = [\<lparr>url = ''http://h/x'', content = ''AAAA'', content_size = 4, access_time = 2\<rparr>],
         current_size = 4\<rparr>,
      access_counter = 2\<rparr>"

definition after_store_fetch :: globals where
  "after_store_fetch =
     \<lparr>global_cache =
        \<lparr>first = [\<lparr>url = ''http://h/x'', content = ''AAAA'', content_size = 4, access_time = 4\<rparr>,
                  \<lparr>url = ''j'', content = ''abc'', content_size = 3, access_time = 3\<rparr>,
                  \<lparr>url = ''k'', content = ''ab'', content_size = 2, access_time = 2\<rparr>],
         current_size = 9\<rparr>,
      access_counter = 4\<rparr>"

definition after_second_k :: globals where
  "after_second_k =
     \<lparr>global_cache =
        \<lparr>first = [\<lparr>url = ''k'', content = ''cd'', content_size = 2, access_time = 4\<rparr>,
                  \<lparr>url = ''j'', content = ''abc'', content_size = 3, access_time = 3\<rparr>,
                  \<lparr>url = ''k'', content = ''ab'', content_size = 2, access_time = 2\<rparr>],
         current_size = 7\<rparr>,
      access_counter = 4\<rparr>"

definition evicted_store :: cache_manager where
  "evicted_store = \<lparr>first = butlast (first (global_cache full_store)), current_size = 900000\<rparr>"

definition after_readmit :: globals where
  "after_readmit =
     \<lparr>global_cache =
        \<lparr>first = \<lparr>url = ''/o0'', content = replicate 102400 (CHR ''y''), content_size = 102400,
                    access_time = 11\<rparr> # first evicted_store,
         current_size = 1002400\<rparr>,
      access_counter = 11\<rparr>"

section \<open>Facts about lists and machine integers\<close>

lemma wrap32_id: "- 2147483648 \<le> x \<Longrightarrow> x \<le> 2147483647 \<Longrightarrow> wrap32 x = x"
  by (simp add: wrap32_def)

lemma to_size_t_id: "0 \<le> x \<Longrightarrow> x < 18446744073709551616 \<Longrightarrow> to_size_t x = x"
  by (simp add: to_size_t_def)

lemma sum_list_remove_nth:
  fixes f :: "'a \<Rightarrow> int"
  shows "i < length xs \<Longrightarrow>
    sum_list (map f (take i xs @ drop (Suc i) xs)) = sum_list (map f xs) - f (xs ! i)"
proof (induction xs arbitrary: i)
  case Nil
  then show ?case by simp
next
  case (Cons a xs)
  then show ?case by (cases i) auto
qed

lemma elem_le_sum_list:
  fixes xs :: "int list"
  shows "\<forall>y \<in> set xs. 0 \<le> y \<Longrightarrow> x \<in> set xs \<Longrightarrow> x \<le> sum_list xs"
proof (induction xs)
  case Nil then show ?case by simp
next
  case (Cons a xs)
  have "0 \<le> sum_list xs" using Cons.prems(1) by (simp add: sum_list_nonneg)
  then show ?case using Cons by auto
qed

lemma set_remove_nth: "set (take i xs @ drop (Suc i) xs) \<subseteq> set xs"
  by (auto dest: in_set_takeD in_set_dropD)

lemma distinct_remove_nth: "distinct (map f xs) \<Longrightarrow> distinct (map f (take i xs @ drop (Suc i) xs))"
proof (induction xs arbitrary: i)
  case Nil
  then show ?case by simp
next
  case (Cons a xs)
  show ?case
  proof (cases i)
    case 0
    with Cons.prems show ?thesis by simp
  next
    case (Suc k)
    have "f a \<notin> f ` set (take k xs @ drop (Suc k) xs)"
      using Cons.prems set_remove_nth [of k xs] by auto
    with Suc Cons.IH [of k] Cons.prems show ?thesis by auto
  qed
qed

lemma map_update_same:
  "(\<And>x. f (h x) = f x) \<Longrightarrow> map f (xs[i := h (xs ! i)]) = map f xs"
proof (induction xs arbitrary: i)
  case Nil
  then show ?case by simp
next
  case (Cons a xs)
  then show ?case by (cases i) auto
qed

lemma length_concat_replicate: "length (concat (replicate n xs)) = n * length xs"
  by (induction n) simp_all

lemma replicate_100: "replicate 100 x = replicate 99 x @ [x]"
proof -
  have "(100::nat) = Suc 99" by simp
  then have "replicate 100 x = x # replicate 99 x" by (simp only: replicate_Suc)
  then show ?thesis by (simp only: replicate_append_same)
qed

section \<open>Eviction\<close>

lemma find_oldest_cases:
  "find_oldest ns cur prev oldest trp tr = (trp', tr') \<Longrightarrow>
     (tr' = tr \<and> trp' = trp \<and> (\<forall>e \<in> set ns. oldest \<le> access_time e)) \<or>
     (\<exists>k < length ns. tr' = cur + k \<and> trp' = (if k = 0 then prev else Some (cur + k - 1)) \<and>
        access_time (ns ! k) < oldest \<and> (\<forall>e \<in> set ns. access_time (ns ! k) \<le> access_time e))"
proof (induction ns arbitrary: cur prev oldest trp tr)
  case Nil
  then show ?case by simp
next
  case (Cons n ns)
  show ?case
  proof (cases "access_time n < oldest")
    case True
    with Cons.prems have "find_oldest ns (Suc cur) (Some cur) (access_time n) prev cur = (trp', tr')"
      by simp
    from Cons.IH [OF this] show ?thesis
    proof
      assume a: "tr' = cur \<and> trp' = prev \<and> (\<forall>e\<in>set ns. access_time n \<le> access_time e)"
      have "0 < length (n # ns) \<and> tr' = cur + 0 \<and> trp' = (if (0::nat) = 0 then prev else Some (cur + 0 - 1)) \<and>
        access_time ((n # ns) ! 0) < oldest \<and> (\<forall>e \<in> set (n # ns). access_time ((n # ns) ! 0) \<le> access_time e)"
        using a True by simp
      then show ?thesis by blast
    next
      assume "\<exists>k<length ns. tr' = Suc cur + k \<and> trp' = (if k = 0 then Some cur else Some (Suc cur + k - 1)) \<and>
        access_time (ns ! k) < access_time n \<and> (\<forall>e\<in>set ns. access_time (ns ! k) \<le> access_time e)"
      then obtain k where k: "k < length ns" "tr' = Suc cur + k"
        "trp' = (if k = 0 then Some cur else Some (Suc cur + k - 1))"
        "access_time (ns ! k) < access_time n" "\<forall>e\<in>set ns. access_time (ns ! k) \<le> access_time e"
        by blast
      have "Suc k < length (n # ns) \<and> tr' = cur + Suc k \<and>
        trp' = (if Suc k = 0 then prev else Some (cur + Suc k - 1)) \<and>
        access_time ((n # ns) ! Suc k) < oldest \<and>
        (\<forall>e \<in> set (n # ns). access_time ((n # ns) ! Suc k) \<le> access_time e)"
        using k True by auto
      then show ?thesis by blast
    qed
  next
    case False
    with Cons.prems have "find_oldest ns (Suc cur) (Some cur) oldest trp tr = (trp', tr')"
      by simp
    from Cons.IH [OF this] show ?thesis
    proof
      assume "tr' = tr \<and> trp' = trp \<and> (\<forall>e\<in>set ns. oldest \<le> access_time e)"
      then show ?thesis using False by auto
    next
      assume "\<exists>k<length ns. tr' = Suc cur + k \<and> trp' = (if k = 0 then Some cur else Some (Suc cur + k - 1)) \<and>
        access_time (ns ! k) < oldest \<and> (\<forall>e\<in>set ns. access_time (ns ! k) \<le> access_time e)"
      then obtain k where k: "k < length ns" "tr' = Suc cur + k"
        "trp' = (if k = 0 then Some cur else Some (Suc cur + k - 1))"
        "access_time (ns ! k) < oldest" "\<forall>e\<in>set ns. access_time (ns ! k) \<le> access_time e"
        by blast
      have "Suc k < length (n # ns) \<and> tr' = cur + Suc k \<and>
        trp' = (if Suc k = 0 then prev else Some (cur + Suc k - 1)) \<and>
        access_time ((n # ns) ! Suc k) < oldest \<and>
        (\<forall>e \<in> set (n # ns). access_time ((n # ns) ! Suc k) \<le> access_time e)"
        using k False by auto
      then show ?thesis by blast
    qed
  qed
qed

text \<open>What \<^verbatim>\<open>remove_oldest\<close> does on a store with nodes: one node goes, at a position of least access time.\<close>

lemma remove_oldest_nonempty:
  assumes "first c \<noteq> []"
  shows "\<exists>i < length (first c).
           remove_oldest c = c\<lparr>first := take i (first c) @ drop (Suc i) (first c),
                               current_size := wrap32 (current_size c - content_size (first c ! i))\<rparr> \<and>
           (\<forall>e \<in> set (first c). access_time (first c ! i) \<le> access_time e)"
proof -
  from assms obtain n ns where xs: "first c = n # ns" by (cases "first c") auto
  obtain trp tr where f: "find_oldest (n # ns) 0 None (access_time n) None 0 = (trp, tr)"
    by (cases "find_oldest (n # ns) 0 None (access_time n) None 0") auto
  from find_oldest_cases [OF f] show ?thesis
  proof
    assume a: "tr = 0 \<and> trp = None \<and> (\<forall>e\<in>set (n # ns). access_time n \<le> access_time e)"
    have "0 < length (first c) \<and>
           remove_oldest c = c\<lparr>first := take 0 (first c) @ drop (Suc 0) (first c),
                               current_size := wrap32 (current_size c - content_size (first c ! 0))\<rparr> \<and>
           (\<forall>e \<in> set (first c). access_time (first c ! 0) \<le> access_time e)"
      using a xs f by (simp add: remove_oldest_def)
    then show ?thesis by blast
  next
    assume "\<exists>k<length (n # ns). tr = 0 + k \<and> trp = (if k = 0 then None else Some (0 + k - 1)) \<and>
        access_time ((n # ns) ! k) < access_time n \<and> (\<forall>e\<in>set (n # ns). access_time ((n # ns) ! k) \<le> access_time e)"
    then obtain k where k: "k < length (n # ns)" "tr = k" "trp = (if k = 0 then None else Some (k - 1))"
        "access_time ((n # ns) ! k) < access_time n" "\<forall>e\<in>set (n # ns). access_time ((n # ns) ! k) \<le> access_time e"
      by auto
    from k(4) have k0: "k \<noteq> 0" by (cases k) auto
    then obtain j where j: "k = Suc j" by (cases k) auto
    have "k < length (first c) \<and>
           remove_oldest c = c\<lparr>first := take k (first c) @ drop (Suc k) (first c),
                               current_size := wrap32 (current_size c - content_size (first c ! k))\<rparr> \<and>
           (\<forall>e \<in> set (first c). access_time (first c ! k) \<le> access_time e)"
      using k j xs f by (simp add: remove_oldest_def)
    then show ?thesis by blast
  qed
qed

lemma remove_oldest_empty: "first c = [] \<Longrightarrow> remove_oldest c = c"
  by (simp add: remove_oldest_def)

text \<open>
  Claim C5. On an empty store \<^verbatim>\<open>remove_oldest\<close> changes nothing. On a store with nodes it
  unlinks exactly one node, the one at some position \<open>i\<close>, whose access time is the least
  of all the nodes that were in the store, and takes its size off \<open>current_size\<close>.
\<close>

theorem remove_oldest_evicts_minimum:
  "(first c = [] \<longrightarrow> remove_oldest c = c) \<and>
   (first c \<noteq> [] \<longrightarrow>
      (\<exists>i < length (first c).
         first (remove_oldest c) = take i (first c) @ drop (Suc i) (first c) \<and>
         current_size (remove_oldest c) = wrap32 (current_size c - content_size (first c ! i)) \<and>
         (\<forall>e \<in> set (first c). access_time (first c ! i) \<le> access_time e)))"
proof (intro conjI impI)
  assume "first c = []"
  then show "remove_oldest c = c" by (rule remove_oldest_empty)
next
  assume "first c \<noteq> []"
  from remove_oldest_nonempty [OF this]
  obtain i where i: "i < length (first c)"
    and r: "remove_oldest c = c\<lparr>first := take i (first c) @ drop (Suc i) (first c),
              current_size := wrap32 (current_size c - content_size (first c ! i))\<rparr>"
    and m: "\<forall>e \<in> set (first c). access_time (first c ! i) \<le> access_time e"
    by blast
  have "first (remove_oldest c) = take i (first c) @ drop (Suc i) (first c)"
    and "current_size (remove_oldest c) = wrap32 (current_size c - content_size (first c ! i))"
    by (simp_all add: r)
  with i m show "\<exists>i < length (first c).
         first (remove_oldest c) = take i (first c) @ drop (Suc i) (first c) \<and>
         current_size (remove_oldest c) = wrap32 (current_size c - content_size (first c ! i)) \<and>
         (\<forall>e \<in> set (first c). access_time (first c ! i) \<le> access_time e)"
    by blast
qed

theorem remove_oldest_evicts_minimum_witness:
  "first three_nodes \<noteq> [] \<and>
   (\<exists>i < length (first three_nodes).
      first (remove_oldest three_nodes) = take i (first three_nodes) @ drop (Suc i) (first three_nodes) \<and>
      current_size (remove_oldest three_nodes)
        = wrap32 (current_size three_nodes - content_size (first three_nodes ! i)) \<and>
      (\<forall>e \<in> set (first three_nodes). access_time (first three_nodes ! i) \<le> access_time e)) \<and>
   map url (first (remove_oldest three_nodes)) = [''a'', ''c'']"
proof -
  have ne: "first three_nodes \<noteq> []" by (simp add: three_nodes_def)
  have ev: "map url (first (remove_oldest three_nodes)) = [''a'', ''c'']"
    by (simp add: three_nodes_def remove_oldest_def)
  from remove_oldest_evicts_minimum [of three_nodes] ne ev show ?thesis by blast
qed

lemma remove_oldest_cases:
  "(first c = [] \<and> remove_oldest c = c) \<or>
   (\<exists>i < length (first c).
      remove_oldest c = c\<lparr>first := take i (first c) @ drop (Suc i) (first c),
                          current_size := wrap32 (current_size c - content_size (first c ! i))\<rparr> \<and>
      (\<forall>e \<in> set (first c). access_time (first c ! i) \<le> access_time e))"
  using remove_oldest_nonempty [of c] remove_oldest_empty [of c] by blast

lemma remove_oldest_first:
  "(first c = [] \<and> first (remove_oldest c) = []) \<or>
   (\<exists>i < length (first c). first (remove_oldest c) = take i (first c) @ drop (Suc i) (first c))"
proof -
  from remove_oldest_cases [of c] show ?thesis
  proof
    assume "first c = [] \<and> remove_oldest c = c"
    then show ?thesis by simp
  next
    assume "\<exists>i < length (first c).
      remove_oldest c = c\<lparr>first := take i (first c) @ drop (Suc i) (first c),
                          current_size := wrap32 (current_size c - content_size (first c ! i))\<rparr> \<and>
      (\<forall>e \<in> set (first c). access_time (first c ! i) \<le> access_time e)"
    then obtain i where i: "i < length (first c)"
      and r: "remove_oldest c = c\<lparr>first := take i (first c) @ drop (Suc i) (first c),
                          current_size := wrap32 (current_size c - content_size (first c ! i))\<rparr>"
      by blast
    have "first (remove_oldest c) = take i (first c) @ drop (Suc i) (first c)"
      by (subst r) simp
    with i show ?thesis by blast
  qed
qed

lemma remove_oldest_subset: "set (first (remove_oldest c)) \<subseteq> set (first c)"
proof -
  from remove_oldest_first [of c] show ?thesis
  proof
    assume "first c = [] \<and> first (remove_oldest c) = []"
    then show ?thesis by simp
  next
    assume "\<exists>i < length (first c). first (remove_oldest c) = take i (first c) @ drop (Suc i) (first c)"
    then obtain i where "first (remove_oldest c) = take i (first c) @ drop (Suc i) (first c)" by blast
    then show ?thesis using set_remove_nth [of i "first c"] by simp
  qed
qed

lemma remove_oldest_shorter:
  assumes "first c \<noteq> []"
  shows "length (first (remove_oldest c)) < length (first c)"
proof -
  from remove_oldest_first [of c] assms
  obtain i where "i < length (first c)"
    "first (remove_oldest c) = take i (first c) @ drop (Suc i) (first c)" by blast
  then show ?thesis by simp
qed

lemma remove_oldest_size:
  assumes "I1 c" and "\<forall>e \<in> set (first c). 0 \<le> content_size e" and "current_size c \<le> INT_MAX"
  shows "I1 (remove_oldest c) \<and> current_size (remove_oldest c) \<le> current_size c"
proof -
  from remove_oldest_cases [of c] show ?thesis
  proof
    assume "first c = [] \<and> remove_oldest c = c"
    then show ?thesis using assms by simp
  next
    assume "\<exists>i < length (first c).
      remove_oldest c = c\<lparr>first := take i (first c) @ drop (Suc i) (first c),
                          current_size := wrap32 (current_size c - content_size (first c ! i))\<rparr> \<and>
      (\<forall>e \<in> set (first c). access_time (first c ! i) \<le> access_time e)"
    then obtain i where i: "i < length (first c)"
      and r: "remove_oldest c = c\<lparr>first := take i (first c) @ drop (Suc i) (first c),
                          current_size := wrap32 (current_size c - content_size (first c ! i))\<rparr>"
      by blast
    let ?s = "content_size (first c ! i)"
    have mem: "?s \<in> set (map content_size (first c))" using i by simp
    have nonneg: "\<forall>y \<in> set (map content_size (first c)). 0 \<le> y" using assms(2) by simp
    have le: "?s \<le> current_size c"
      using elem_le_sum_list [OF nonneg mem] assms(1) by (simp add: I1_def)
    have s0: "0 \<le> ?s" using nonneg mem by blast
    have w: "wrap32 (current_size c - ?s) = current_size c - ?s"
      using le s0 assms(3) by (intro wrap32_id) (simp_all add: INT_MAX_def)
    have "sum_list (map content_size (take i (first c) @ drop (Suc i) (first c)))
            = sum_list (map content_size (first c)) - ?s"
      using i by (rule sum_list_remove_nth)
    then show ?thesis using r w s0 assms(1) by (simp add: I1_def)
  qed
qed

section \<open>The eviction loop and admission\<close>

lemma evict_loop_terminates:
  assumes "I1 c" and "\<forall>e \<in> set (first c). 0 \<le> content_size e" and "current_size c \<le> INT_MAX"
    and "0 \<le> sz" and "sz \<le> MAX_OBJECT_SIZE"
  shows "\<exists>c'. evict_loop c sz = Some c'"
  using assms(1-3)
proof (induction "length (first c)" arbitrary: c rule: less_induct)
  case less
  show ?case
  proof (cases "wrap32 (current_size c + sz) > MAX_CACHE_SIZE")
    case False
    then show ?thesis by (subst evict_loop.simps) simp
  next
    case True
    have ne: "first c \<noteq> []"
    proof
      assume "first c = []"
      then have "current_size c = 0" using less.prems(1) by (simp add: I1_def)
      then have "wrap32 (current_size c + sz) = sz"
        using assms(4,5) by (simp add: wrap32_def MAX_OBJECT_SIZE_def)
      then show False using True assms(5) by (simp add: MAX_OBJECT_SIZE_def MAX_CACHE_SIZE_def)
    qed
    have a: "I1 (remove_oldest c)" and b: "current_size (remove_oldest c) \<le> INT_MAX"
      using remove_oldest_size [OF less.prems] less.prems(3) by auto
    have c: "\<forall>e \<in> set (first (remove_oldest c)). 0 \<le> content_size e"
      using less.prems(2) remove_oldest_subset [of c] by blast
    from less.hyps [OF remove_oldest_shorter [OF ne] a c b]
    obtain c' where "evict_loop (remove_oldest c) sz = Some c'" by blast
    then show ?thesis using True by (subst evict_loop.simps) simp
  qed
qed

lemma evict_loop_rule:
  assumes ev: "evict_loop c sz = Some c'" and init: "P c" and step: "\<And>d. P d \<Longrightarrow> P (remove_oldest d)"
  shows "P c' \<and> wrap32 (current_size c' + sz) \<le> MAX_CACHE_SIZE"
proof -
  let ?Q = "\<lambda>c sz c'. P c \<longrightarrow> P c' \<and> wrap32 (current_size c' + sz) \<le> MAX_CACHE_SIZE"
  have "?Q c sz c'"
  proof (rule evict_loop.raw_induct [where P = ?Q, OF _ ev])
    fix loop :: "cache_manager \<Rightarrow> int \<Rightarrow> cache_manager option" and d n d'
    assume IH: "\<And>a b y. loop a b = Some y \<Longrightarrow> ?Q a b y"
      and body: "(if MAX_CACHE_SIZE < wrap32 (current_size d + n)
                  then loop (remove_oldest d) n else Some d) = Some d'"
    show "?Q d n d'"
    proof (cases "MAX_CACHE_SIZE < wrap32 (current_size d + n)")
      case True
      with body have "loop (remove_oldest d) n = Some d'" by simp
      from IH [OF this] show ?thesis using step by blast
    next
      case False
      with body have "d' = d" by simp
      with False show ?thesis by simp
    qed
  qed
  with init show ?thesis by blast
qed

lemma evict_loop_subset:
  assumes "evict_loop c sz = Some c'"
  shows "set (first c') \<subseteq> set (first c)"
proof -
  have step: "\<And>d. set (first d) \<subseteq> set (first c) \<Longrightarrow> set (first (remove_oldest d)) \<subseteq> set (first c)"
    using remove_oldest_subset by blast
  from evict_loop_rule [of c sz c' "\<lambda>d. set (first d) \<subseteq> set (first c)", OF assms _ step]
  show ?thesis by simp
qed

lemma loop_entered_nonempty:
  assumes "I1 c" and "0 \<le> sz" and "sz \<le> MAX_OBJECT_SIZE"
    and "MAX_CACHE_SIZE < wrap32 (current_size c + sz)"
  shows "first c \<noteq> []"
proof
  assume "first c = []"
  then have "current_size c = 0" using assms(1) by (simp add: I1_def)
  then have "wrap32 (current_size c + sz) = sz"
    using assms(2,3) by (simp add: wrap32_def MAX_OBJECT_SIZE_def)
  then show False using assms(3,4) by (simp add: MAX_OBJECT_SIZE_def MAX_CACHE_SIZE_def)
qed

lemma add_to_cache_cases:
  assumes "add_to_cache g uri buffer sz = Some (Inr g')"
  shows "(sz > MAX_OBJECT_SIZE \<and> g' = g) \<or>
         (sz \<le> MAX_OBJECT_SIZE \<and> 0 \<le> sz \<and> fits uri \<and>
          (\<exists>c'. evict_loop (global_cache g) sz = Some c' \<and>
             g' = \<lparr>global_cache = c'\<lparr>first :=
                        \<lparr>url = uri, content = take (nat sz) buffer, content_size = sz,
                          access_time = wrap32 (access_counter g + 1)\<rparr> # first c',
                        current_size := wrap32 (current_size c' + sz)\<rparr>,
                    access_counter = wrap32 (access_counter g + 1)\<rparr>))"
proof (cases "sz > MAX_OBJECT_SIZE")
  case True
  with assms show ?thesis by (simp add: add_to_cache_def)
next
  case False
  show ?thesis
  proof (cases "evict_loop (global_cache g) sz")
    case None
    with False assms show ?thesis by (simp add: add_to_cache_def)
  next
    case (Some c')
    with False assms show ?thesis
      by (auto simp: add_to_cache_def update_counter_def Let_def split: if_splits)
  qed
qed

text \<open>
  Claim C10. From a store that satisfies I1 and whose sizes are not negative, the eviction
  loop of \<^verbatim>\<open>add_to_cache\<close> for a body of at most \<^verbatim>\<open>MAX_OBJECT_SIZE\<close> bytes ends, with room for
  the body, and \<^verbatim>\<open>add_to_cache\<close> returns; whenever the loop is entered the store has a node
  and the eviction makes the list shorter. (\<open>current_size\<close> is an \<^verbatim>\<open>int\<close>, so at most
  \<^verbatim>\<open>INT_MAX\<close>.)
\<close>

theorem add_to_cache_terminates:
  assumes "I1 (global_cache g)" and "\<forall>e \<in> set (first (global_cache g)). 0 \<le> content_size e"
    and "current_size (global_cache g) \<le> INT_MAX"
    and "0 \<le> sz" and "sz \<le> MAX_OBJECT_SIZE"
  shows "(\<exists>c'. evict_loop (global_cache g) sz = Some c' \<and>
               wrap32 (current_size c' + sz) \<le> MAX_CACHE_SIZE) \<and>
         (\<exists>r. add_to_cache g uri buffer sz = Some r) \<and>
         (MAX_CACHE_SIZE < wrap32 (current_size (global_cache g) + sz) \<longrightarrow>
            length (first (remove_oldest (global_cache g))) < length (first (global_cache g)))"
proof -
  from evict_loop_terminates [OF assms]
  obtain c' where ev: "evict_loop (global_cache g) sz = Some c'" by blast
  from evict_loop_rule [of "global_cache g" sz c' "\<lambda>d. True", OF ev]
  have room: "wrap32 (current_size c' + sz) \<le> MAX_CACHE_SIZE" by simp
  have ret: "\<exists>r. add_to_cache g uri buffer sz = Some r"
    using ev by (simp add: add_to_cache_def Let_def split: prod.splits)
  have prog: "MAX_CACHE_SIZE < wrap32 (current_size (global_cache g) + sz) \<longrightarrow>
            length (first (remove_oldest (global_cache g))) < length (first (global_cache g))"
    using loop_entered_nonempty [OF assms(1,4,5)] remove_oldest_shorter by blast
  from ev room ret prog show ?thesis by blast
qed

theorem add_to_cache_terminates_witness:
  "I1 (global_cache full_store) \<and>
   list_all (\<lambda>e. 0 \<le> content_size e) (first (global_cache full_store)) \<and>
   current_size (global_cache full_store) \<le> INT_MAX \<and>
   (0::int) \<le> 102400 \<and> (102400::int) \<le> MAX_OBJECT_SIZE \<and>
   (\<exists>c'. evict_loop (global_cache full_store) 102400 = Some c' \<and>
         wrap32 (current_size c' + 102400) \<le> MAX_CACHE_SIZE) \<and>
   (\<exists>r. add_to_cache full_store ''d'' (replicate 102400 (CHR ''x'')) 102400 = Some r) \<and>
   MAX_CACHE_SIZE < wrap32 (current_size (global_cache full_store) + 102400) \<and>
   length (first (remove_oldest (global_cache full_store))) < length (first (global_cache full_store))"
proof -
  have a: "I1 (global_cache full_store)"
    by (simp add: full_store_def I1_def)
  have b: "\<forall>e \<in> set (first (global_cache full_store)). 0 \<le> content_size e"
    by (simp add: full_store_def)
  have c: "current_size (global_cache full_store) \<le> INT_MAX"
    by (simp add: full_store_def INT_MAX_def)
  have d: "(0::int) \<le> 102400" by simp
  have e: "(102400::int) \<le> MAX_OBJECT_SIZE" by (simp add: MAX_OBJECT_SIZE_def)
  have f: "MAX_CACHE_SIZE < wrap32 (current_size (global_cache full_store) + 102400)"
    by (simp add: full_store_def MAX_CACHE_SIZE_def wrap32_def)
  from add_to_cache_terminates [OF a b c d e, of "''d''" "replicate 102400 (CHR ''x'')"] a b c d e f
  show ?thesis unfolding list_all_iff by blast
qed

section \<open>Lookup\<close>

text \<open>What the lookup loop tests on a node, for a query that is not empty.\<close>

lemma url_matches_prefix:
  "uri \<noteq> [] \<Longrightarrow>
   url_matches u uri =
     Inr (u = uri \<or> (last uri = CHR ''/'' \<and> take (length uri - 1) u = butlast uri))"
  by (auto simp: url_matches_def strncmp_eq_def butlast_conv_take)

lemma find_node_bounds:
  "find_node ns uri k = Inr (Some i) \<Longrightarrow> k \<le> i \<and> i < k + length ns"
proof (induction ns arbitrary: k)
  case Nil
  then show ?case by simp
next
  case (Cons n ns)
  show ?case
  proof (cases "url_matches (url n) uri")
    case (Inl f)
    with Cons.prems show ?thesis by simp
  next
    case (Inr b)
    show ?thesis
    proof (cases b)
      case True
      with Inr Cons.prems show ?thesis by simp
    next
      case False
      with Inr Cons.prems have "find_node ns uri (Suc k) = Inr (Some i)" by simp
      from Cons.IH [OF this] show ?thesis by simp
    qed
  qed
qed

lemma find_node_None: "find_node ns uri i = Inr None \<Longrightarrow> uri \<notin> url ` set ns"
proof (induction ns arbitrary: i)
  case Nil
  then show ?case by simp
next
  case (Cons n ns)
  have ne: "url n \<noteq> uri"
  proof
    assume "url n = uri"
    then have "url_matches (url n) uri = Inr True" by (simp add: url_matches_def)
    with Cons.prems show False by simp
  qed
  have "find_node ns uri (Suc i) = Inr None"
    using Cons.prems by (auto split: sum.splits bool.splits)
  from Cons.IH [OF this] ne show ?case by auto
qed

lemma check_cache_cases:
  assumes "check_cache g uri = Inr (r, g')"
  shows "(r = None \<and> g' = g) \<or>
         (\<exists>i < length (first (global_cache g)). r = Some i \<and>
            g' = \<lparr>global_cache = (global_cache g)\<lparr>first :=
                      (first (global_cache g))[i := (first (global_cache g) ! i)
                          \<lparr>access_time := wrap32 (access_counter g + 1)\<rparr>]\<rparr>,
                   access_counter = wrap32 (access_counter g + 1)\<rparr>)"
proof (cases "find_node (first (global_cache g)) uri 0")
  case (Inl f)
  with assms show ?thesis by (simp add: check_cache_def)
next
  case (Inr res)
  show ?thesis
  proof (cases res)
    case None
    with Inr assms show ?thesis by (auto simp: check_cache_def)
  next
    case (Some i)
    with Inr find_node_bounds [of "first (global_cache g)" uri 0 i]
    have "i < length (first (global_cache g))" by simp
    moreover have "r = Some i \<and>
            g' = \<lparr>global_cache = (global_cache g)\<lparr>first :=
                      (first (global_cache g))[i := (first (global_cache g) ! i)
                          \<lparr>access_time := wrap32 (access_counter g + 1)\<rparr>]\<rparr>,
                   access_counter = wrap32 (access_counter g + 1)\<rparr>"
      using Some Inr assms by (auto simp: check_cache_def update_counter_def Let_def)
    ultimately show ?thesis by blast
  qed
qed

lemma check_cache_miss:
  assumes "check_cache g uri = Inr (None, g')"
  shows "g' = g \<and> uri \<notin> set (keys (global_cache g))"
proof -
  have "find_node (first (global_cache g)) uri 0 = Inr None"
    using assms by (auto simp: check_cache_def Let_def split: sum.splits option.splits prod.splits)
  from find_node_None [OF this] check_cache_cases [OF assms] show ?thesis
    by (auto simp: keys_def)
qed

text \<open>
  Claim C2 does not hold of the code. The second disjunct of the lookup compares the first
  \<^verbatim>\<open>strlen(uri) - 1\<close> characters only (\<^verbatim>\<open>strncmp\<close>) and never looks at the length of the
  key, so every key that starts with the query without its slash is a hit: the query
  \<^verbatim>\<open>http://h/a/\<close> is served from the node of key \<^verbatim>\<open>http://h/abc\<close>.
\<close>

theorem check_cache_hits_on_prefix:
  "check_cache \<lparr>global_cache = \<lparr>first = [\<lparr>url = ''http://h/abc'', content = ''A'',
                     content_size = 1, access_time = 1\<rparr>], current_size = 1\<rparr>,
                 access_counter = 1\<rparr> ''http://h/a/''
   = Inr (Some 0, \<lparr>global_cache = \<lparr>first = [\<lparr>url = ''http://h/abc'', content = ''A'',
                     content_size = 1, access_time = 2\<rparr>], current_size = 1\<rparr>,
                 access_counter = 2\<rparr>)"
  by (simp add: check_cache_def url_matches_def strncmp_eq_def update_counter_def wrap32_def)

section \<open>Size accounting\<close>

lemma remove_oldest_inv:
  assumes "I1 c \<and> I2 c \<and> I3 c"
  shows "I1 (remove_oldest c) \<and> I2 (remove_oldest c) \<and> I3 (remove_oldest c)"
proof -
  have nn: "\<forall>e \<in> set (first c). 0 \<le> content_size e"
    using assms by (simp add: I3_def list_all_iff)
  have mx: "current_size c \<le> INT_MAX"
    using assms by (simp add: I2_def INT_MAX_def MAX_CACHE_SIZE_def)
  from remove_oldest_size [OF _ nn mx] assms
  have "I1 (remove_oldest c)" "current_size (remove_oldest c) \<le> current_size c" by auto
  moreover have "I3 (remove_oldest c)"
    using assms remove_oldest_subset [of c] by (auto simp: I3_def list_all_iff)
  ultimately show ?thesis using assms by (simp add: I2_def)
qed

lemma sum_list_I3_nonneg: "I3 c \<Longrightarrow> 0 \<le> sum_list (map content_size (first c))"
  by (rule sum_list_nonneg) (auto simp: I3_def list_all_iff)

lemma I3_alt:
  "I3 c = (\<forall>s \<in> set (map content_size (first c)). 0 \<le> s \<and> s \<le> MAX_OBJECT_SIZE)"
  by (auto simp: I3_def list_all_iff)

lemma check_cache_inv:
  assumes "check_cache g uri = Inr (r, g')" and "I1 (global_cache g) \<and> I2 (global_cache g) \<and> I3 (global_cache g)"
  shows "I1 (global_cache g') \<and> I2 (global_cache g') \<and> I3 (global_cache g')"
proof -
  from check_cache_cases [OF assms(1)] show ?thesis
  proof
    assume "r = None \<and> g' = g"
    with assms(2) show ?thesis by simp
  next
    assume "\<exists>i < length (first (global_cache g)). r = Some i \<and>
            g' = \<lparr>global_cache = (global_cache g)\<lparr>first :=
                      (first (global_cache g))[i := (first (global_cache g) ! i)
                          \<lparr>access_time := wrap32 (access_counter g + 1)\<rparr>]\<rparr>,
                   access_counter = wrap32 (access_counter g + 1)\<rparr>"
    then obtain i where g': "g' = \<lparr>global_cache = (global_cache g)\<lparr>first :=
                      (first (global_cache g))[i := (first (global_cache g) ! i)
                          \<lparr>access_time := wrap32 (access_counter g + 1)\<rparr>]\<rparr>,
                   access_counter = wrap32 (access_counter g + 1)\<rparr>" by blast
    have m: "map content_size ((first (global_cache g))[i := (first (global_cache g) ! i)
                          \<lparr>access_time := wrap32 (access_counter g + 1)\<rparr>])
             = map content_size (first (global_cache g))"
      by (rule map_update_same) simp
    have "I1 (global_cache g')" using assms(2) m by (simp add: g' I1_def)
    moreover have "I2 (global_cache g')" using assms(2) by (simp add: g' I2_def)
    moreover have "I3 (global_cache g')"
      using assms(2) m by (simp add: g' I3_alt)
    ultimately show ?thesis by simp
  qed
qed

lemma add_to_cache_inv:
  assumes a: "add_to_cache g uri buffer sz = Some (Inr g')"
    and inv: "I1 (global_cache g) \<and> I2 (global_cache g) \<and> I3 (global_cache g)"
  shows "I1 (global_cache g') \<and> I2 (global_cache g') \<and> I3 (global_cache g')"
proof -
  from add_to_cache_cases [OF a] show ?thesis
  proof
    assume "sz > MAX_OBJECT_SIZE \<and> g' = g"
    with inv show ?thesis by simp
  next
    assume "sz \<le> MAX_OBJECT_SIZE \<and> 0 \<le> sz \<and> fits uri \<and>
          (\<exists>c'. evict_loop (global_cache g) sz = Some c' \<and>
             g' = \<lparr>global_cache = c'\<lparr>first :=
                        \<lparr>url = uri, content = take (nat sz) buffer, content_size = sz,
                          access_time = wrap32 (access_counter g + 1)\<rparr> # first c',
                        current_size := wrap32 (current_size c' + sz)\<rparr>,
                    access_counter = wrap32 (access_counter g + 1)\<rparr>)"
    then obtain c' where sz: "sz \<le> MAX_OBJECT_SIZE" "0 \<le> sz"
      and ev: "evict_loop (global_cache g) sz = Some c'"
      and g': "g' = \<lparr>global_cache = c'\<lparr>first :=
                        \<lparr>url = uri, content = take (nat sz) buffer, content_size = sz,
                          access_time = wrap32 (access_counter g + 1)\<rparr> # first c',
                        current_size := wrap32 (current_size c' + sz)\<rparr>,
                    access_counter = wrap32 (access_counter g + 1)\<rparr>"
      by blast
    from evict_loop_rule [of "global_cache g" sz c' "\<lambda>d. I1 d \<and> I2 d \<and> I3 d", OF ev inv remove_oldest_inv]
    have c': "I1 c'" "I2 c'" "I3 c'" and room: "wrap32 (current_size c' + sz) \<le> MAX_CACHE_SIZE"
      by simp_all
    have lo: "0 \<le> current_size c'" using c'(1,3) sum_list_I3_nonneg [of c'] by (simp add: I1_def)
    have w: "wrap32 (current_size c' + sz) = current_size c' + sz"
      using lo sz c'(2)
      by (intro wrap32_id) (simp_all add: I2_def MAX_CACHE_SIZE_def MAX_OBJECT_SIZE_def)
    have "I1 (global_cache g')" using c'(1) w by (simp add: g' I1_def)
    moreover have "I2 (global_cache g')" using room by (simp add: g' I2_def)
    moreover have "I3 (global_cache g')" using c'(3) sz by (simp add: g' I3_def)
    ultimately show ?thesis by simp
  qed
qed

lemma exec_inv:
  assumes "exec p g = Some (ts, g')"
    and inv: "I1 (global_cache g) \<and> I2 (global_cache g) \<and> I3 (global_cache g)"
  shows "I1 (global_cache g') \<and> I2 (global_cache g') \<and> I3 (global_cache g')"
proof (cases p)
  case (Lookup uri)
  with assms(1) obtain r where "check_cache g uri = Inr (r, g')"
    by (auto simp: exec_def split: sum.splits option.splits prod.splits)
  from check_cache_inv [OF this inv] show ?thesis .
next
  case (Admit uri buffer sz)
  with assms(1) have "add_to_cache g uri buffer sz = Some (Inr g')"
    by (auto simp: exec_def split: sum.splits option.splits)
  from add_to_cache_inv [OF this inv] show ?thesis .
next
  case Evict
  with assms(1) have "g' = g\<lparr>global_cache := remove_oldest (global_cache g)\<rparr>"
    by (simp add: exec_def)
  then show ?thesis using remove_oldest_inv [OF inv] by simp
qed

lemma run_inv:
  "run ops g = Some (ts, g') \<Longrightarrow>
   I1 (global_cache g) \<and> I2 (global_cache g) \<and> I3 (global_cache g) \<Longrightarrow>
   I1 (global_cache g') \<and> I2 (global_cache g') \<and> I3 (global_cache g')"
proof (induction ops arbitrary: g ts)
  case Nil
  then show ?case by simp
next
  case (Cons p ps)
  from Cons.prems(1) obtain t1 g1 t2 where e: "exec p g = Some (t1, g1)"
    and r: "run ps g1 = Some (t2, g')"
    by (auto split: option.splits prod.splits)
  from Cons.IH [OF r exec_inv [OF e Cons.prems(2)]] show ?case .
qed

lemma init_inv:
  "I1 (global_cache init_globals) \<and> I2 (global_cache init_globals) \<and> I3 (global_cache init_globals)"
  by (simp add: init_globals_def initialize_cache_def I1_def I2_def I3_def MAX_CACHE_SIZE_def)

text \<open>
  Claim C4. In every state that lookups, admissions and evictions reach from the initial
  store, \<open>current_size\<close> is the sum of the sizes of the nodes and is at most
  \<^verbatim>\<open>MAX_CACHE_SIZE\<close>.
\<close>

theorem size_accounting:
  "run ops init_globals = Some (ts, g) \<Longrightarrow>
     current_size (global_cache g) = sum_list (map content_size (first (global_cache g))) \<and>
     current_size (global_cache g) \<le> MAX_CACHE_SIZE"
proof -
  assume "run ops init_globals = Some (ts, g)"
  from run_inv [OF this init_inv] have "I1 (global_cache g)" "I2 (global_cache g)" by simp_all
  then show ?thesis by (simp add: I1_def I2_def)
qed

lemma run_two_admits: "run two_admits init_globals = Some ([1, 2, 3], after_two_admits)"
  by (simp add: two_admits_def after_two_admits_def exec_def check_cache_def add_to_cache_def
      evict_loop.simps update_counter_def url_matches_def strncmp_eq_def
      init_globals_def initialize_cache_def wrap32_def
      MAX_OBJECT_SIZE_def MAX_CACHE_SIZE_def fits_def MAXLINE_def)

theorem size_accounting_witness:
  "run two_admits init_globals = Some ([1, 2, 3], after_two_admits) \<and>
   current_size (global_cache after_two_admits)
     = sum_list (map content_size (first (global_cache after_two_admits))) \<and>
   current_size (global_cache after_two_admits) \<le> MAX_CACHE_SIZE"
  using size_accounting [OF run_two_admits] run_two_admits by blast

section \<open>Stamps\<close>

lemma exec_ticks:
  assumes "exec p g = Some (ts, g')"
  shows "(ts = [] \<and> access_counter g' = access_counter g) \<or>
         (ts = [wrap32 (access_counter g + 1)] \<and> access_counter g' = wrap32 (access_counter g + 1))"
proof (cases p)
  case (Lookup uri)
  with assms obtain r where c: "check_cache g uri = Inr (r, g')"
    and t: "ts = (case r of None \<Rightarrow> [] | Some i \<Rightarrow> [access_time (first (global_cache g') ! i)])"
    by (auto simp: exec_def split: sum.splits option.splits prod.splits)
  from check_cache_cases [OF c] show ?thesis
  proof
    assume "r = None \<and> g' = g"
    with t show ?thesis by simp
  next
    assume "\<exists>i < length (first (global_cache g)). r = Some i \<and>
            g' = \<lparr>global_cache = (global_cache g)\<lparr>first :=
                      (first (global_cache g))[i := (first (global_cache g) ! i)
                          \<lparr>access_time := wrap32 (access_counter g + 1)\<rparr>]\<rparr>,
                   access_counter = wrap32 (access_counter g + 1)\<rparr>"
    then obtain i where i: "i < length (first (global_cache g))" "r = Some i"
      and g': "g' = \<lparr>global_cache = (global_cache g)\<lparr>first :=
                      (first (global_cache g))[i := (first (global_cache g) ! i)
                          \<lparr>access_time := wrap32 (access_counter g + 1)\<rparr>]\<rparr>,
                   access_counter = wrap32 (access_counter g + 1)\<rparr>" by blast
    have "access_time (first (global_cache g') ! i) = wrap32 (access_counter g + 1)"
      using i(1) by (simp add: g')
    with t i(2) g' show ?thesis by simp
  qed
next
  case (Admit uri buffer sz)
  with assms have a: "add_to_cache g uri buffer sz = Some (Inr g')"
    and t: "ts = (if sz > MAX_OBJECT_SIZE then [] else [access_time (hd (first (global_cache g')))])"
    by (auto simp: exec_def split: sum.splits option.splits)
  from add_to_cache_cases [OF a] show ?thesis
  proof
    assume "sz > MAX_OBJECT_SIZE \<and> g' = g"
    with t show ?thesis by simp
  next
    assume "sz \<le> MAX_OBJECT_SIZE \<and> 0 \<le> sz \<and> fits uri \<and>
          (\<exists>c'. evict_loop (global_cache g) sz = Some c' \<and>
             g' = \<lparr>global_cache = c'\<lparr>first :=
                        \<lparr>url = uri, content = take (nat sz) buffer, content_size = sz,
                          access_time = wrap32 (access_counter g + 1)\<rparr> # first c',
                        current_size := wrap32 (current_size c' + sz)\<rparr>,
                    access_counter = wrap32 (access_counter g + 1)\<rparr>)"
    then obtain c' where sz: "sz \<le> MAX_OBJECT_SIZE"
      and g': "g' = \<lparr>global_cache = c'\<lparr>first :=
                        \<lparr>url = uri, content = take (nat sz) buffer, content_size = sz,
                          access_time = wrap32 (access_counter g + 1)\<rparr> # first c',
                        current_size := wrap32 (current_size c' + sz)\<rparr>,
                    access_counter = wrap32 (access_counter g + 1)\<rparr>"
      by blast
    from sz t show ?thesis by (simp add: g')
  qed
next
  case Evict
  with assms show ?thesis by (auto simp: exec_def)
qed

lemma exec_stamps:
  assumes "exec p g = Some (ts, g')"
  shows "access_time ` set (first (global_cache g')) \<subseteq>
         access_time ` set (first (global_cache g)) \<union> set ts"
proof (cases p)
  case (Lookup uri)
  with assms obtain r where c: "check_cache g uri = Inr (r, g')"
    and t: "ts = (case r of None \<Rightarrow> [] | Some i \<Rightarrow> [access_time (first (global_cache g') ! i)])"
    by (auto simp: exec_def split: sum.splits option.splits prod.splits)
  from check_cache_cases [OF c] show ?thesis
  proof
    assume "r = None \<and> g' = g"
    then show ?thesis by auto
  next
    assume "\<exists>i < length (first (global_cache g)). r = Some i \<and>
            g' = \<lparr>global_cache = (global_cache g)\<lparr>first :=
                      (first (global_cache g))[i := (first (global_cache g) ! i)
                          \<lparr>access_time := wrap32 (access_counter g + 1)\<rparr>]\<rparr>,
                   access_counter = wrap32 (access_counter g + 1)\<rparr>"
    then obtain i where i: "i < length (first (global_cache g))" "r = Some i"
      and g': "g' = \<lparr>global_cache = (global_cache g)\<lparr>first :=
                      (first (global_cache g))[i := (first (global_cache g) ! i)
                          \<lparr>access_time := wrap32 (access_counter g + 1)\<rparr>]\<rparr>,
                   access_counter = wrap32 (access_counter g + 1)\<rparr>" by blast
    let ?xs = "first (global_cache g)" and ?y = "(first (global_cache g) ! i)\<lparr>access_time := wrap32 (access_counter g + 1)\<rparr>"
    have f: "first (global_cache g') = ?xs[i := ?y]" by (simp add: g')
    have ts: "ts = [access_time ?y]" using t i by (simp add: g')
    have "set (?xs[i := ?y]) \<subseteq> insert ?y (set ?xs)" by (rule set_update_subset_insert)
    then show ?thesis unfolding f ts by auto
  qed
next
  case (Admit uri buffer sz)
  with assms have a: "add_to_cache g uri buffer sz = Some (Inr g')"
    and t: "ts = (if sz > MAX_OBJECT_SIZE then [] else [access_time (hd (first (global_cache g')))])"
    by (auto simp: exec_def split: sum.splits option.splits)
  from add_to_cache_cases [OF a] show ?thesis
  proof
    assume "sz > MAX_OBJECT_SIZE \<and> g' = g"
    then show ?thesis by auto
  next
    assume "sz \<le> MAX_OBJECT_SIZE \<and> 0 \<le> sz \<and> fits uri \<and>
          (\<exists>c'. evict_loop (global_cache g) sz = Some c' \<and>
             g' = \<lparr>global_cache = c'\<lparr>first :=
                        \<lparr>url = uri, content = take (nat sz) buffer, content_size = sz,
                          access_time = wrap32 (access_counter g + 1)\<rparr> # first c',
                        current_size := wrap32 (current_size c' + sz)\<rparr>,
                    access_counter = wrap32 (access_counter g + 1)\<rparr>)"
    then obtain c' where sz: "sz \<le> MAX_OBJECT_SIZE"
      and ev: "evict_loop (global_cache g) sz = Some c'"
      and g': "g' = \<lparr>global_cache = c'\<lparr>first :=
                        \<lparr>url = uri, content = take (nat sz) buffer, content_size = sz,
                          access_time = wrap32 (access_counter g + 1)\<rparr> # first c',
                        current_size := wrap32 (current_size c' + sz)\<rparr>,
                    access_counter = wrap32 (access_counter g + 1)\<rparr>"
      by blast
    have ts: "ts = [wrap32 (access_counter g + 1)]" using t sz by (simp add: g')
    show ?thesis using evict_loop_subset [OF ev] unfolding ts by (auto simp: g')
  qed
next
  case Evict
  with assms have "g' = g\<lparr>global_cache := remove_oldest (global_cache g)\<rparr>" by (simp add: exec_def)
  then show ?thesis using remove_oldest_subset [of "global_cache g"] by auto
qed

lemma run_stamps:
  "run ops g = Some (ts, g') \<Longrightarrow>
   access_time ` set (first (global_cache g')) \<subseteq> access_time ` set (first (global_cache g)) \<union> set ts"
proof (induction ops arbitrary: g ts)
  case Nil
  then show ?case by auto
next
  case (Cons p ps)
  from Cons.prems(1) obtain t1 g1 t2 where e: "exec p g = Some (t1, g1)"
    and r: "run ps g1 = Some (t2, g')" and ts: "ts = t1 @ t2"
    by (auto split: option.splits prod.splits)
  from Cons.IH [OF r] exec_stamps [OF e] show ?case unfolding ts by auto
qed

lemma run_ticks:
  "run ops g = Some (ts, g') \<Longrightarrow> access_counter g + int (length ts) \<le> INT_MAX \<Longrightarrow>
   0 \<le> access_counter g \<Longrightarrow>
   ts = map (\<lambda>k. access_counter g + 1 + int k) [0..<length ts] \<and>
   access_counter g' = access_counter g + int (length ts)"
proof (induction ops arbitrary: g ts)
  case Nil
  then show ?case by auto
next
  case (Cons p ps)
  from Cons.prems(1) obtain t1 g1 t2 where e: "exec p g = Some (t1, g1)"
    and r: "run ps g1 = Some (t2, g')" and ts: "ts = t1 @ t2"
    by (auto split: option.splits prod.splits)
  from exec_ticks [OF e] show ?case
  proof
    assume a: "t1 = [] \<and> access_counter g1 = access_counter g"
    with Cons.IH [OF r] Cons.prems(2,3) ts show ?thesis by simp
  next
    assume a: "t1 = [wrap32 (access_counter g + 1)] \<and> access_counter g1 = wrap32 (access_counter g + 1)"
    have len: "length ts = Suc (length t2)" using a ts by simp
    have w: "wrap32 (access_counter g + 1) = access_counter g + 1"
      using Cons.prems(2,3) len by (intro wrap32_id) (simp_all add: INT_MAX_def)
    have c1: "access_counter g1 = access_counter g + 1" using a w by simp
    have "access_counter g1 + int (length t2) \<le> INT_MAX" "0 \<le> access_counter g1"
      using c1 len Cons.prems(2,3) by simp_all
    from Cons.IH [OF r this]
    have t2: "t2 = map (\<lambda>k. access_counter g1 + 1 + int k) [0..<length t2]"
      and c': "access_counter g' = access_counter g1 + int (length t2)" by simp_all
    have "map (\<lambda>k. access_counter g + 1 + int k) [0..<Suc (length t2)]
            = (access_counter g + 1) # map (\<lambda>k. access_counter g + 1 + int k) (map Suc [0..<length t2])"
      by (simp only: map_Suc_upt upt_conv_Cons [of 0 "Suc (length t2)"]) simp
    also have "\<dots> = (access_counter g + 1) # t2"
      by (subst (2) t2) (simp add: c1 add.assoc add.commute)
    finally show ?thesis using a w ts c' c1 len by simp
  qed
qed

lemma run_init_ticks:
  assumes "run ops init_globals = Some (ts, g)" and "int (length ts) \<le> INT_MAX"
  shows "ts = map (\<lambda>k. 1 + int k) [0..<length ts]" and "access_counter g = int (length ts)"
    and "\<forall>e \<in> set (first (global_cache g)). access_time e \<in> set ts"
proof -
  have c0: "access_counter init_globals = 0" by (simp add: init_globals_def)
  from run_ticks [OF assms(1)] assms(2) c0
  show "ts = map (\<lambda>k. 1 + int k) [0..<length ts]" and "access_counter g = int (length ts)"
    by simp_all
  from run_stamps [OF assms(1)]
  show "\<forall>e \<in> set (first (global_cache g)). access_time e \<in> set ts"
    by (auto simp: init_globals_def initialize_cache_def)
qed

lemma ticks_sorted: "ts = map (\<lambda>k. 1 + int k) [0..<n] \<Longrightarrow> sorted_wrt (<) ts"
  by (simp add: sorted_wrt_map)

lemma ticks_bound: "ts = map (\<lambda>k. 1 + int k) [0..<length ts] \<Longrightarrow> t \<in> set ts \<Longrightarrow> t \<le> int (length ts)"
proof -
  assume a: "ts = map (\<lambda>k. 1 + int k) [0..<length ts]" and "t \<in> set ts"
  then have "t \<in> set (map (\<lambda>k. 1 + int k) [0..<length ts])" by simp
  then show ?thesis by auto
qed

text \<open>
  Claim C6, amended. \<^verbatim>\<open>access_counter\<close> is an \<^verbatim>\<open>int\<close>. As long as fewer than \<^verbatim>\<open>INT_MAX\<close> stamps
  have been assigned since the start, the stamps assigned so far are strictly increasing
  in the order of their assignment, every node carries one of them, and the stamp that
  the next hit or the next admission writes is greater than all of them.
\<close>

theorem tick_fresh:
  assumes "run ops init_globals = Some (ts, g)" and "int (length ts) < INT_MAX"
  shows "sorted_wrt (<) ts \<and>
    (\<forall>e \<in> set (first (global_cache g)). access_time e \<in> set ts) \<and>
    (check_cache g uri = Inr (Some i, g') \<longrightarrow>
       (\<forall>t \<in> set ts. t < access_time (first (global_cache g') ! i))) \<and>
    (sz \<le> MAX_OBJECT_SIZE \<and> add_to_cache g key buffer sz = Some (Inr g'') \<longrightarrow>
       (\<forall>t \<in> set ts. t < access_time (hd (first (global_cache g'')))))"
proof -
  have le: "int (length ts) \<le> INT_MAX" using assms(2) by simp
  note r = run_init_ticks [OF assms(1) le]
  have w: "wrap32 (access_counter g + 1) = int (length ts) + 1"
    using r(2) assms(2) by (simp add: wrap32_def INT_MAX_def)
  have a: "sorted_wrt (<) ts" using ticks_sorted [OF r(1)] .
  have b: "check_cache g uri = Inr (Some i, g') \<longrightarrow>
       (\<forall>t \<in> set ts. t < access_time (first (global_cache g') ! i))"
  proof
    assume c: "check_cache g uri = Inr (Some i, g')"
    then have "exec (Lookup uri) g = Some ([access_time (first (global_cache g') ! i)], g')"
      by (simp add: exec_def)
    from exec_ticks [OF this] w have "access_time (first (global_cache g') ! i) = int (length ts) + 1"
      by simp
    then show "\<forall>t \<in> set ts. t < access_time (first (global_cache g') ! i)"
      using ticks_bound [OF r(1)] by fastforce
  qed
  have c: "sz \<le> MAX_OBJECT_SIZE \<and> add_to_cache g key buffer sz = Some (Inr g'') \<longrightarrow>
       (\<forall>t \<in> set ts. t < access_time (hd (first (global_cache g''))))"
  proof
    assume c: "sz \<le> MAX_OBJECT_SIZE \<and> add_to_cache g key buffer sz = Some (Inr g'')"
    then have "exec (Admit key buffer sz) g = Some ([access_time (hd (first (global_cache g'')))], g'')"
      by (simp add: exec_def)
    from exec_ticks [OF this] w have "access_time (hd (first (global_cache g''))) = int (length ts) + 1"
      by simp
    then show "\<forall>t \<in> set ts. t < access_time (hd (first (global_cache g'')))"
      using ticks_bound [OF r(1)] by fastforce
  qed
  from a r(3) b c show ?thesis by blast
qed

lemma hit_after_two_admits: "check_cache after_two_admits ''k'' = Inr (Some 1, after_hit)"
  by (simp add: after_two_admits_def after_hit_def check_cache_def update_counter_def
      url_matches_def strncmp_eq_def wrap32_def)

lemma admit_after_two_admits:
  "add_to_cache after_two_admits ''i'' ''a'' 1 = Some (Inr after_third_admit)"
  by (simp add: after_two_admits_def after_third_admit_def add_to_cache_def
      evict_loop.simps update_counter_def wrap32_def
      MAX_OBJECT_SIZE_def MAX_CACHE_SIZE_def fits_def MAXLINE_def)

theorem tick_fresh_witness:
  "run two_admits init_globals = Some ([1, 2, 3], after_two_admits) \<and>
   int (length [1, 2, 3 :: int]) < INT_MAX \<and>
   sorted_wrt (<) [1, 2, 3 :: int] \<and>
   list_all (\<lambda>e. access_time e \<in> set [1, 2, 3]) (first (global_cache after_two_admits)) \<and>
   check_cache after_two_admits ''k'' = Inr (Some 1, after_hit) \<and>
   list_all (\<lambda>t. t < access_time (first (global_cache after_hit) ! 1)) [1, 2, 3] \<and>
   (1::int) \<le> MAX_OBJECT_SIZE \<and>
   add_to_cache after_two_admits ''i'' ''a'' 1 = Some (Inr after_third_admit) \<and>
   list_all (\<lambda>t. t < access_time (hd (first (global_cache after_third_admit)))) [1, 2, 3]"
proof -
  have small: "int (length [1, 2, 3 :: int]) < INT_MAX" by (simp add: INT_MAX_def)
  have le: "(1::int) \<le> MAX_OBJECT_SIZE" by (simp add: MAX_OBJECT_SIZE_def)
  from tick_fresh [OF run_two_admits small, of "''k''" 1 after_hit 1 "''i''" "''a''" after_third_admit]
    run_two_admits small le hit_after_two_admits admit_after_two_admits
  show ?thesis unfolding list_all_iff by blast
qed

lemma exec_lookup_stamped:
  "exec (Lookup ''k'') (stamped t) = Some ([wrap32 (t + 1)], stamped (wrap32 (t + 1)))"
  by (simp add: exec_def check_cache_def url_matches_def update_counter_def stamped_def Let_def)

lemma exec_admit_init: "exec (Admit ''k'' [] 0) init_globals = Some ([1], stamped 1)"
  by (simp add: exec_def add_to_cache_def evict_loop.simps update_counter_def stamped_def
      init_globals_def initialize_cache_def wrap32_def
      MAX_OBJECT_SIZE_def MAX_CACHE_SIZE_def fits_def MAXLINE_def)

lemma run_lookups_stamped:
  "m + int n \<le> INT_MAX \<Longrightarrow> 0 \<le> m \<Longrightarrow>
   map_option snd (run (replicate n (Lookup ''k'')) (stamped m)) = Some (stamped (m + int n))"
proof (induction n arbitrary: m)
  case 0
  then show ?case by simp
next
  case (Suc n)
  have w: "wrap32 (m + 1) = m + 1"
    using Suc.prems by (intro wrap32_id) (simp_all add: INT_MAX_def)
  have "map_option snd (run (replicate n (Lookup ''k'')) (stamped (m + 1)))
          = Some (stamped (m + 1 + int n))"
    using Suc.prems by (intro Suc.IH) simp_all
  then show ?case
    by (auto simp: exec_lookup_stamped w add.assoc split: option.splits)
qed

text \<open>
  Claim C6 as stated fails: after \<^verbatim>\<open>INT_MAX\<close> stamps the counter has no greater value left.
  One admission and 2147483646 hits bring the counter and the stamp of the node to
  2147483647; the next hit stamps the node with the wrapped value, which is smaller.
\<close>

theorem tick_wraps_at_INT_MAX:
  "map_option snd (run (Admit ''k'' [] 0 # replicate 2147483646 (Lookup ''k'')) init_globals)
     = Some (stamped 2147483647) \<and>
   check_cache (stamped 2147483647) ''k'' = Inr (Some 0, stamped (- 2147483648)) \<and>
   access_time (first (global_cache (stamped (- 2147483648))) ! 0)
     < access_time (first (global_cache (stamped 2147483647)) ! 0)"
proof -
  have "map_option snd (run (replicate 2147483646 (Lookup ''k'')) (stamped 1))
          = Some (stamped (1 + int 2147483646))"
    by (rule run_lookups_stamped) (simp_all add: INT_MAX_def)
  then have a: "map_option snd (run (Admit ''k'' [] 0 # replicate 2147483646 (Lookup ''k'')) init_globals)
     = Some (stamped 2147483647)"
    by (auto simp: exec_admit_init split: option.splits)
  have b: "check_cache (stamped 2147483647) ''k'' = Inr (Some 0, stamped (- 2147483648))"
    by (simp add: check_cache_def url_matches_def update_counter_def stamped_def wrap32_def)
  have c: "access_time (first (global_cache (stamped (- 2147483648))) ! 0)
     < access_time (first (global_cache (stamped 2147483647)) ! 0)"
    by (simp add: stamped_def)
  from a b c show ?thesis by blast
qed

section \<open>The URI parser\<close>

text \<open>
  Claim C8 does not hold of the code. With the host ended by the end of the string,
  \<^verbatim>\<open>extract_uri\<close> copies what is left, the empty string, into \<^verbatim>\<open>path\<close>; only the branch of
  a port without a path sets \<^verbatim>\<open>"/"\<close>. For \<^verbatim>\<open>http://h\<close> the request line sent to the origin is
  \<^verbatim>\<open>GET  HTTP/1.0\<close>.
\<close>

theorem extract_uri_bare_host:
  "extract_uri ''http://h'' =
     Inr \<lparr>host = ''h'', port = ''80'', path = [],
          request_header = ''GET  HTTP/1.0'' @ CRLF @ ''Host: h'' @ CRLF\<rparr> \<and>
   extract_uri ''http://h:8080'' =
     Inr \<lparr>host = ''h'', port = ''8080'', path = ''/'',
          request_header = ''GET / HTTP/1.0'' @ CRLF @ ''Host: h'' @ CRLF\<rparr>"
  by (simp add: extract_uri_def strchr_def fits_def MAXLINE_def CRLF_def)

lemma extract_uri_h_x: "extract_uri ''http://h/x'' = Inr parts_h"
  by (simp add: extract_uri_def parts_h_def fits_def MAXLINE_def CRLF_def)



section \<open>The header rewriter\<close>

lemma process_headers_none:
  "process_headers [CRLF] = user_agent @ connection_hdr @ proxy_connection @ CRLF"
  by (simp add: process_headers_def c_str_def CRLF_def CR_def LF_def NUL_def)











section \<open>The streaming loop\<close>

lemma memcpy_at_empty: "off \<le> length dst \<Longrightarrow> memcpy_at dst off [] = dst"
  by (simp add: memcpy_at_def)

lemma memcpy_at_append:
  "off + length a + length b \<le> length dst \<Longrightarrow>
   memcpy_at (memcpy_at dst off a) (off + length a) b = memcpy_at dst off (a @ b)"
  by (simp add: memcpy_at_def add.assoc add.commute add.left_commute)

lemma length_memcpy_at:
  "off + length a \<le> length dst \<Longrightarrow> length (memcpy_at dst off a) = length dst"
  by (simp add: memcpy_at_def)

lemma stream_response_fits:
  "\<forall>b \<in> set bufs. b \<noteq> [] \<Longrightarrow> 0 \<le> total_size t \<Longrightarrow>
   total_size t + int (length (concat bufs)) < MAX_OBJECT_SIZE \<Longrightarrow>
   length (object_buffer t) = nat MAX_OBJECT_SIZE \<Longrightarrow>
   stream_response bufs t =
     Inr \<lparr>object_buffer = memcpy_at (object_buffer t) (nat (total_size t)) (concat bufs),
          total_size = total_size t + int (length (concat bufs)),
          client_out = client_out t @ concat bufs\<rparr>"
proof (induction bufs arbitrary: t)
  case Nil
  then have "nat (total_size t) \<le> length (object_buffer t)" by simp
  then show ?case by (simp add: memcpy_at_empty)
next
  case (Cons b bufs)
  let ?n = "int (length b)"
  let ?t' = "\<lparr>object_buffer = memcpy_at (object_buffer t) (nat (total_size t)) b,
              total_size = total_size t + ?n,
              client_out = client_out t @ b\<rparr>"
  have pos: "0 < ?n" using Cons.prems(1) by simp
  have lt: "total_size t + ?n < MAX_OBJECT_SIZE" using Cons.prems(3) by simp
  have s1: "to_size_t (total_size t) = total_size t"
    using Cons.prems(2) lt by (intro to_size_t_id) (simp_all add: MAX_OBJECT_SIZE_def)
  have s2: "to_size_t (total_size t + ?n) = total_size t + ?n"
    using Cons.prems(2) lt by (intro to_size_t_id) (simp_all add: MAX_OBJECT_SIZE_def)
  have w: "wrap32 (total_size t + ?n) = total_size t + ?n"
    using Cons.prems(2) lt by (simp add: wrap32_def MAX_OBJECT_SIZE_def)
  have step: "stream_response (b # bufs) t = stream_response bufs ?t'"
    using pos lt Cons.prems(2) by (simp add: s1 s2 w Let_def)
  have fit: "nat (total_size t) + length b + length (concat bufs) \<le> length (object_buffer t)"
    using Cons.prems(2,3,4) by simp
  have len: "length (object_buffer ?t') = nat MAX_OBJECT_SIZE"
    using fit Cons.prems(4) by (simp add: length_memcpy_at)
  have "stream_response bufs ?t' =
     Inr \<lparr>object_buffer = memcpy_at (object_buffer ?t') (nat (total_size ?t')) (concat bufs),
          total_size = total_size ?t' + int (length (concat bufs)),
          client_out = client_out ?t' @ concat bufs\<rparr>"
    using Cons.prems len by (intro Cons.IH) simp_all
  moreover have "nat (total_size t + ?n) = nat (total_size t) + length b"
    using Cons.prems(2) by (simp add: nat_add_distrib)
  ultimately show ?case using step memcpy_at_append [OF fit] by simp
qed

lemma stream_response_append:
  "\<forall>b \<in> set as. b \<noteq> [] \<Longrightarrow>
   stream_response (as @ bs) t =
     (case stream_response as t of Inl f \<Rightarrow> Inl f | Inr t' \<Rightarrow> stream_response bs t')"
  by (induction as arbitrary: t) (simp_all add: Let_def)

text \<open>
  Without a wrap-around of \<^verbatim>\<open>total_size\<close> the loop ends without a fault, has counted every
  byte and has written every byte to the client.
\<close>

lemma stream_response_relays:
  "\<forall>b \<in> set bufs. b \<noteq> [] \<Longrightarrow> 0 \<le> total_size t \<Longrightarrow>
   total_size t + int (length (concat bufs)) \<le> INT_MAX \<Longrightarrow>
   length (object_buffer t) = nat MAX_OBJECT_SIZE \<Longrightarrow>
   \<exists>t'. stream_response bufs t = Inr t' \<and>
        total_size t' = total_size t + int (length (concat bufs)) \<and>
        client_out t' = client_out t @ concat bufs \<and>
        length (object_buffer t') = nat MAX_OBJECT_SIZE"
proof (induction bufs arbitrary: t)
  case Nil
  then show ?case by simp
next
  case (Cons b bufs)
  let ?n = "int (length b)"
  have pos: "0 < ?n" using Cons.prems(1) by simp
  have le: "total_size t + ?n \<le> INT_MAX" using Cons.prems(3) by simp
  have s1: "to_size_t (total_size t) = total_size t"
    using Cons.prems(2) le by (intro to_size_t_id) (simp_all add: INT_MAX_def)
  have s2: "to_size_t (total_size t + ?n) = total_size t + ?n"
    using Cons.prems(2) le by (intro to_size_t_id) (simp_all add: INT_MAX_def)
  have w: "wrap32 (total_size t + ?n) = total_size t + ?n"
    using Cons.prems(2) le by (intro wrap32_id) (simp_all add: INT_MAX_def)
  let ?buf = "if total_size t + ?n < MAX_OBJECT_SIZE
              then memcpy_at (object_buffer t) (nat (total_size t)) b else object_buffer t"
  let ?t' = "\<lparr>object_buffer = ?buf, total_size = total_size t + ?n,
              client_out = client_out t @ b\<rparr>"
  have step: "stream_response (b # bufs) t = stream_response bufs ?t'"
    using pos Cons.prems(2) by (simp add: s1 s2 w Let_def)
  have len: "length (object_buffer ?t') = nat MAX_OBJECT_SIZE"
  proof (cases "total_size t + ?n < MAX_OBJECT_SIZE")
    case True
    then have "nat (total_size t) + length b \<le> length (object_buffer t)"
      using Cons.prems(2,4) by simp
    with True Cons.prems(4) show ?thesis by (simp add: length_memcpy_at)
  next
    case False
    with Cons.prems(4) show ?thesis by simp
  qed
  have "\<exists>t''. stream_response bufs ?t' = Inr t'' \<and>
        total_size t'' = total_size ?t' + int (length (concat bufs)) \<and>
        client_out t'' = client_out ?t' @ concat bufs \<and>
        length (object_buffer t'') = nat MAX_OBJECT_SIZE"
    using Cons.prems len by (intro Cons.IH) simp_all
  then show ?case unfolding step by (auto simp: add.assoc)
qed

lemma stream_100_lines:
  "stream_response (replicate 100 line1024) tee_init =
     Inr \<lparr>object_buffer = concat (replicate 99 line1024) @ replicate 1024 NUL,
          total_size = 102400,
          client_out = concat (replicate 100 line1024)\<rparr>"
proof -
  let ?first = "replicate 99 line1024"
  have len1: "length line1024 = 1024" by (simp add: line1024_def)
  have len99: "length (concat ?first) = 101376" by (simp add: length_concat_replicate len1)
  have ne: "\<forall>b \<in> set ?first. b \<noteq> []" using len1 by auto
  have "stream_response ?first tee_init =
     Inr \<lparr>object_buffer = memcpy_at (object_buffer tee_init) (nat (total_size tee_init)) (concat ?first),
          total_size = total_size tee_init + int (length (concat ?first)),
          client_out = client_out tee_init @ concat ?first\<rparr>"
    by (rule stream_response_fits [OF ne]) (simp_all add: tee_init_def len99 MAX_OBJECT_SIZE_def)
  then have a: "stream_response ?first tee_init =
     Inr \<lparr>object_buffer = concat ?first @ replicate 1024 NUL, total_size = 101376,
          client_out = concat ?first\<rparr>"
    by (simp add: tee_init_def memcpy_at_def len99 MAX_OBJECT_SIZE_def)
  have b: "stream_response [line1024]
             \<lparr>object_buffer = concat ?first @ replicate 1024 NUL, total_size = 101376,
              client_out = concat ?first\<rparr>
           = Inr \<lparr>object_buffer = concat ?first @ replicate 1024 NUL, total_size = 102400,
                  client_out = concat ?first @ line1024\<rparr>"
    by (simp add: len1 to_size_t_def wrap32_def MAX_OBJECT_SIZE_def)
  have c100: "concat (replicate 100 line1024) = concat ?first @ line1024"
    by (simp add: replicate_100)
  show ?thesis
    unfolding c100
    by (simp only: replicate_100 stream_response_append [OF ne] a b sum.case)
qed

lemma staging_differs:
  "concat (replicate 99 line1024) @ replicate 1024 NUL \<noteq> concat (replicate 100 line1024)"
proof
  assume "concat (replicate 99 line1024) @ replicate 1024 NUL = concat (replicate 100 line1024)"
  then have "concat (replicate 99 line1024) @ replicate 1024 NUL
               = concat (replicate 99 line1024) @ line1024"
    by (simp add: replicate_100)
  then have "replicate 1024 NUL = line1024" by simp
  then have "last (replicate 1024 NUL) = last line1024" by (rule arg_cong)
  then show False by (simp add: line1024_def NUL_def LF_def)
qed

section \<open>The request line\<close>

lemma sscanf3_two_tokens:
  "sscanf3 (c_str (''GET http://h/x'' @ CRLF)) = [''GET'', ''http://h/x'']"
  by (simp add: sscanf3_def scan_s_def c_str_def c_isspace_def CRLF_def CR_def LF_def NUL_def)

lemma sscanf3_three_tokens:
  "sscanf3 (c_str (''GET http://h/x HTTP/1.0'' @ CRLF)) = [''GET'', ''http://h/x'', ''HTTP/1.0'']"
  by (simp add: sscanf3_def scan_s_def c_str_def c_isspace_def CRLF_def CR_def LF_def NUL_def)

lemma sscanf3_one_token: "sscanf3 (c_str (''POST'' @ CRLF)) = [''POST'']"
  by (simp add: sscanf3_def scan_s_def c_str_def c_isspace_def CRLF_def CR_def LF_def NUL_def)

lemma scan_s_length: "scan_s s = Some (t, r) \<Longrightarrow> length t + length r \<le> length s"
proof -
  assume a: "scan_s s = Some (t, r)"
  let ?s' = "dropWhile c_isspace s"
  from a have t: "t = takeWhile (\<lambda>c. \<not> c_isspace c) ?s'"
    and r: "r = dropWhile (\<lambda>c. \<not> c_isspace c) ?s'"
    by (auto simp: scan_s_def Let_def split: if_splits)
  have "length (t @ r) = length ?s'" unfolding t r by simp
  moreover have "length ?s' \<le> length s" by (rule length_dropWhile_le)
  ultimately show ?thesis by simp
qed

lemma sscanf3_uri_length: "sscanf3 s = m # u # rest \<Longrightarrow> length u \<le> length s"
proof -
  assume a: "sscanf3 s = m # u # rest"
  then obtain m' r1 where s1: "scan_s s = Some (m', r1)"
    by (cases "scan_s s") (auto simp: sscanf3_def)
  with a obtain u' r2 where s2: "scan_s r1 = Some (u', r2)"
    by (cases "scan_s r1") (auto simp: sscanf3_def)
  with a s1 have "u = u'" by (auto simp: sscanf3_def split: option.splits)
  with scan_s_length [OF s1] scan_s_length [OF s2] show ?thesis by simp
qed

text \<open>A URI that \<^verbatim>\<open>sscanf\<close> took from a line buffer fits the buffer of a cache node.\<close>

lemma token_fits: "rio_chunk b \<Longrightarrow> sscanf3 (c_str b) = m # u # rest \<Longrightarrow> fits u"
proof -
  assume b: "rio_chunk b" and t: "sscanf3 (c_str b) = m # u # rest"
  have "length (c_str b) \<le> length b" unfolding c_str_def by (rule length_takeWhile_le)
  with sscanf3_uri_length [OF t] b show ?thesis by (simp add: fits_def rio_chunk_def)
qed

lemma process_request_get:
  "rio_chunk b \<Longrightarrow> sscanf3 (c_str b) = mg # key # rest \<Longrightarrow> strcasecmp_eq mg ''GET'' \<Longrightarrow>
   process_request g (b # headers) net = serve_uri g key headers net"
  by (simp add: process_request_def rio_chunk_def)

lemma serve_uri_hit:
  "check_cache g key = Inr (Some i, gh) \<Longrightarrow>
   serve_uri g key headers net =
     Some (Inr (\<lparr>client_bytes = take (nat (content_size (first (global_cache gh) ! i)))
                                     (content (first (global_cache gh) ! i)),
                  probed = Some key, origin = None\<rparr>, gh))"
  by (simp add: serve_uri_def Let_def)

text \<open>
  On a miss the origin is sent the request prelude and the rewritten headers, and the
  client is sent every byte of the answer; \<^verbatim>\<open>process_request\<close> returns, with the answer
  admitted when it is of at most \<^verbatim>\<open>MAX_OBJECT_SIZE\<close> bytes.
\<close>

lemma serve_uri_miss:
  assumes miss: "check_cache g key = Inr (None, gm)" and uri: "extract_uri key = Inr p"
    and conn: "net (host p) (port p) = Some chunks" and chunks: "list_all rio_chunk chunks"
    and len: "int (length (concat chunks)) \<le> INT_MAX"
    and i1: "I1 (global_cache g)"
    and nonneg: "list_all (\<lambda>e. 0 \<le> content_size e) (first (global_cache g))"
    and cs: "current_size (global_cache g) \<le> INT_MAX" and fits: "fits key"
  shows "\<exists>g'. serve_uri g key headers net =
           Some (Inr (\<lparr>client_bytes = concat chunks, probed = Some key,
                        origin = Some (host p, port p,
                                       request_header p @ process_headers headers)\<rparr>, g')) \<and>
         (if int (length (concat chunks)) \<le> MAX_OBJECT_SIZE
          then \<exists>staged. add_to_cache g key staged (int (length (concat chunks))) = Some (Inr g')
          else g' = g)"
proof -
  from check_cache_miss [OF miss] have gm: "gm = g" by simp
  have ne: "\<forall>b \<in> set chunks. b \<noteq> []"
    using chunks by (auto simp: list_all_iff rio_chunk_def)
  have "\<exists>t. stream_response chunks tee_init = Inr t \<and>
        total_size t = total_size tee_init + int (length (concat chunks)) \<and>
        client_out t = client_out tee_init @ concat chunks \<and>
        length (object_buffer t) = nat MAX_OBJECT_SIZE"
    using len by (intro stream_response_relays [OF ne]) (simp_all add: tee_init_def)
  then obtain t where t: "stream_response chunks tee_init = Inr t"
    and total: "total_size t = int (length (concat chunks))"
    and out: "client_out t = concat chunks"
    and buf: "length (object_buffer t) = nat MAX_OBJECT_SIZE"
    by (auto simp: tee_init_def)
  let ?r = "\<lparr>client_bytes = concat chunks, probed = Some key,
             origin = Some (host p, port p, request_header p @ process_headers headers)\<rparr>"
  show ?thesis
  proof (cases "total_size t \<le> MAX_OBJECT_SIZE")
    case False
    then have "serve_uri g key headers net = Some (Inr (?r, g))"
      by (simp add: serve_uri_def miss uri conn t out gm Let_def)
    with False total show ?thesis by simp
  next
    case True
    have sz0: "0 \<le> total_size t" using total by simp
    have nn: "\<forall>e \<in> set (first (global_cache g)). 0 \<le> content_size e"
      using nonneg by (simp add: list_all_iff)
    from evict_loop_terminates [OF i1 nn cs sz0 True]
    obtain c' where ev: "evict_loop (global_cache g) (total_size t) = Some c'" by blast
    have inb: "\<not> (total_size t < 0 \<or> int (length (object_buffer t)) < total_size t)"
      using sz0 True buf by (simp add: MAX_OBJECT_SIZE_def)
    have "\<exists>g'. add_to_cache g key (object_buffer t) (total_size t) = Some (Inr g')"
      using True ev fits inb
      by (cases "update_counter g") (simp add: add_to_cache_def Let_def)
    then obtain g' where adm: "add_to_cache g key (object_buffer t) (total_size t) = Some (Inr g')"
      by blast
    with True have "serve_uri g key headers net = Some (Inr (?r, g'))"
      by (simp add: serve_uri_def miss uri conn t out gm Let_def)
    moreover have "\<exists>staged. add_to_cache g key staged (int (length (concat chunks))) = Some (Inr g')"
      using adm total by auto
    ultimately show ?thesis using True total by auto
  qed
qed

lemma check_cache_init_miss: "check_cache init_globals ''http://h/x'' = Inr (None, init_globals)"
  by (simp add: check_cache_def init_globals_def initialize_cache_def)

lemma check_cache_store_miss:
  "check_cache after_two_admits ''http://h/x'' = Inr (None, after_two_admits)"
  by (simp add: check_cache_def after_two_admits_def url_matches_def)

lemma check_cache_fetched_hit:
  "check_cache after_fetch ''http://h/x'' = Inr (Some 0, after_fetch_hit)"
  by (simp add: check_cache_def after_fetch_def after_fetch_hit_def url_matches_def
      update_counter_def wrap32_def)

lemma stream_AAAA:
  "stream_response [''AAAA''] tee_init =
     Inr \<lparr>object_buffer = ''AAAA'' @ replicate 102396 NUL, total_size = 4, client_out = ''AAAA''\<rparr>"
  by (simp add: tee_init_def memcpy_at_def to_size_t_def wrap32_def MAX_OBJECT_SIZE_def)

lemma serve_uri_AAAA:
  assumes "check_cache g ''http://h/x'' = Inr (None, g)"
    and "add_to_cache g ''http://h/x'' (''AAAA'' @ replicate 102396 NUL) 4 = Some (Inr g')"
  shows "serve_uri g ''http://h/x'' [CRLF] origin_AAAA =
     Some (Inr (\<lparr>client_bytes = ''AAAA'', probed = Some ''http://h/x'',
                  origin = Some (''h'', ''80'',
                    ''GET /x HTTP/1.0'' @ CRLF @ ''Host: h'' @ CRLF @
                    user_agent @ connection_hdr @ proxy_connection @ CRLF)\<rparr>,
                g'))"
  unfolding serve_uri_def assms(1) extract_uri_h_x
  using process_headers_none stream_AAAA assms(2)
  by (simp add: origin_AAAA_def parts_h_def MAX_OBJECT_SIZE_def del: stream_response.simps)

lemma admit_AAAA_init:
  "add_to_cache init_globals ''http://h/x'' (''AAAA'' @ replicate 102396 NUL) 4 =
     Some (Inr after_fetch)"
  by (simp add: add_to_cache_def evict_loop.simps update_counter_def init_globals_def
      after_fetch_def initialize_cache_def wrap32_def MAX_OBJECT_SIZE_def MAX_CACHE_SIZE_def
      fits_def MAXLINE_def)

lemma admit_AAAA_store:
  "add_to_cache after_two_admits ''http://h/x'' (''AAAA'' @ replicate 102396 NUL) 4 =
     Some (Inr after_store_fetch)"
  by (simp add: add_to_cache_def evict_loop.simps update_counter_def after_two_admits_def
      after_store_fetch_def wrap32_def MAX_OBJECT_SIZE_def MAX_CACHE_SIZE_def
      fits_def MAXLINE_def)

lemma rio_chunk_request_lines:
  "rio_chunk (''GET http://h/x'' @ CRLF)" "rio_chunk (''GET http://h/x HTTP/1.0'' @ CRLF)"
  "rio_chunk (''POST'' @ CRLF)" "rio_chunk CRLF" "rio_chunk ''AAAA''"
  by (simp_all add: rio_chunk_def MAXLINE_def CRLF_def)

lemma fetch_into_store:
  "process_request after_two_admits [''GET http://h/x HTTP/1.0'' @ CRLF, CRLF] origin_AAAA =
     Some (Inr (\<lparr>client_bytes = ''AAAA'', probed = Some ''http://h/x'',
                  origin = Some (''h'', ''80'',
                    ''GET /x HTTP/1.0'' @ CRLF @ ''Host: h'' @ CRLF @
                    user_agent @ connection_hdr @ proxy_connection @ CRLF)\<rparr>,
                after_store_fetch))"
proof -
  have get: "strcasecmp_eq ''GET'' ''GET''" by (simp add: strcasecmp_eq_def)
  have "process_request after_two_admits [''GET http://h/x HTTP/1.0'' @ CRLF, CRLF] origin_AAAA =
          serve_uri after_two_admits ''http://h/x'' [CRLF] origin_AAAA"
    by (rule process_request_get [OF rio_chunk_request_lines(2) sscanf3_three_tokens get])
  then show ?thesis
    by (simp only: serve_uri_AAAA [OF check_cache_store_miss admit_AAAA_store])
qed

text \<open>
  Claim C7 as stated fails: the result of \<^verbatim>\<open>sscanf\<close> is dropped and no path of
  \<^verbatim>\<open>process_request\<close> answers 400. The request line \<^verbatim>\<open>GET http://h/x\<close>, two tokens, goes on
  to the cache probe and to the origin, and the client gets the origin's bytes.
\<close>

theorem two_tokens_reach_origin:
  "process_request init_globals [''GET http://h/x'' @ CRLF, CRLF] origin_AAAA =
     Some (Inr (\<lparr>client_bytes = ''AAAA'', probed = Some ''http://h/x'',
                  origin = Some (''h'', ''80'',
                    ''GET /x HTTP/1.0'' @ CRLF @ ''Host: h'' @ CRLF @
                    user_agent @ connection_hdr @ proxy_connection @ CRLF)\<rparr>,
                after_fetch))"
proof -
  have get: "strcasecmp_eq ''GET'' ''GET''" by (simp add: strcasecmp_eq_def)
  have "process_request init_globals [''GET http://h/x'' @ CRLF, CRLF] origin_AAAA =
          serve_uri init_globals ''http://h/x'' [CRLF] origin_AAAA"
    by (rule process_request_get [OF rio_chunk_request_lines(1) sscanf3_two_tokens get])
  then show ?thesis
    by (simp only: serve_uri_AAAA [OF check_cache_init_miss admit_AAAA_init])
qed

lemma send_error_501:
  assumes "length method + 44 < MAXLINE"
  shows "\<exists>page. send_error method ''501'' ''Not Implemented''
               ''This proxy only supports GET requests'' = Inr page \<and>
           take 12 page = ''HTTP/1.0 501''"
  using assms by (simp add: send_error_def fits_def MAXLINE_def CRLF_def)

text \<open>
  Claim C7, amended. \<^verbatim>\<open>process_request\<close> does not look at the number of tokens of the
  request line. For a request line that one call of \<^verbatim>\<open>Rio_readlineb\<close> returns (fewer than
  \<^verbatim>\<open>MAXLINE\<close> bytes): a line of two tokens is processed as the line of three tokens with
  the same first two tokens is, the version being read nowhere. A line of two tokens, the
  first of which is \<^verbatim>\<open>GET\<close> in any case of letters, goes on to the cache probe. On a hit the
  client is sent the body of the node and no origin is contacted. On a miss, with a URI
  that \<^verbatim>\<open>extract_uri\<close> accepts, an origin that accepts the connection and answers with at
  most \<^verbatim>\<open>INT_MAX\<close> bytes, header lines and answer coming in chunks of fewer than \<^verbatim>\<open>MAXLINE\<close>
  bytes, and a store that satisfies I1 with sizes that are not negative and a total of at
  most \<^verbatim>\<open>INT_MAX\<close>: the origin is sent the request prelude and the rewritten headers, the
  client is sent the whole answer, and \<^verbatim>\<open>process_request\<close> returns, with the store that
  \<^verbatim>\<open>add_to_cache\<close> makes of the URI and the size of the answer when that size is at most
  \<^verbatim>\<open>MAX_OBJECT_SIZE\<close>, and with the store unchanged otherwise. A line of at least one
  token, the first of which is not \<^verbatim>\<open>GET\<close> and is short enough for the buffer of the error
  page, gets the 501 page, without a cache probe, without an origin connection and
  without a change of the store.
\<close>

theorem request_line_tokens:
  "(rio_chunk b2 \<and> rio_chunk b3 \<and> list_all rio_chunk headers \<and>
    sscanf3 (c_str b2) = [m2, u] \<and> sscanf3 (c_str b3) = [m2, u, v] \<longrightarrow>
      process_request g (b2 # headers) net = process_request g (b3 # headers) net) \<and>
   (rio_chunk bh \<and> sscanf3 (c_str bh) = [mh, kh] \<and> strcasecmp_eq mh ''GET'' \<and>
    check_cache g kh = Inr (Some i, gh) \<longrightarrow>
      process_request g (bh # headers) net =
        Some (Inr (\<lparr>client_bytes = take (nat (content_size (first (global_cache gh) ! i)))
                                        (content (first (global_cache gh) ! i)),
                     probed = Some kh, origin = None\<rparr>, gh))) \<and>
   (rio_chunk bm \<and> list_all rio_chunk headers \<and>
    sscanf3 (c_str bm) = [mm, km] \<and> strcasecmp_eq mm ''GET'' \<and>
    check_cache g km = Inr (None, gm) \<and> extract_uri km = Inr p \<and>
    net (host p) (port p) = Some chunks \<and> list_all rio_chunk chunks \<and>
    int (length (concat chunks)) \<le> INT_MAX \<and> I1 (global_cache g) \<and>
    list_all (\<lambda>e. 0 \<le> content_size e) (first (global_cache g)) \<and>
    current_size (global_cache g) \<le> INT_MAX \<longrightarrow>
      (\<exists>g'. process_request g (bm # headers) net =
               Some (Inr (\<lparr>client_bytes = concat chunks, probed = Some km,
                            origin = Some (host p, port p,
                                           request_header p @ process_headers headers)\<rparr>,
                          g')) \<and>
             (if int (length (concat chunks)) \<le> MAX_OBJECT_SIZE
              then \<exists>staged. add_to_cache g km staged (int (length (concat chunks))) =
                             Some (Inr g')
              else g' = g))) \<and>
   (rio_chunk b1 \<and> sscanf3 (c_str b1) = m # tokens \<and> \<not> strcasecmp_eq m ''GET'' \<and>
    length m + 44 < MAXLINE \<longrightarrow>
      (\<exists>page. process_request g (b1 # headers) net =
                 Some (Inr (\<lparr>client_bytes = page, probed = None, origin = None\<rparr>, g)) \<and>
               take 12 page = ''HTTP/1.0 501''))"
proof (intro conjI impI)
  assume "rio_chunk b2 \<and> rio_chunk b3 \<and> list_all rio_chunk headers \<and>
    sscanf3 (c_str b2) = [m2, u] \<and> sscanf3 (c_str b3) = [m2, u, v]"
  then show "process_request g (b2 # headers) net = process_request g (b3 # headers) net"
    by (simp add: process_request_def rio_chunk_def)
next
  assume a: "rio_chunk bh \<and> sscanf3 (c_str bh) = [mh, kh] \<and> strcasecmp_eq mh ''GET'' \<and>
    check_cache g kh = Inr (Some i, gh)"
  then have "process_request g (bh # headers) net = serve_uri g kh headers net"
    using process_request_get [of bh mh kh "[]" g headers net] by simp
  with a show "process_request g (bh # headers) net =
        Some (Inr (\<lparr>client_bytes = take (nat (content_size (first (global_cache gh) ! i)))
                                        (content (first (global_cache gh) ! i)),
                     probed = Some kh, origin = None\<rparr>, gh))"
    by (simp add: serve_uri_hit)
next
  assume a: "rio_chunk bm \<and> list_all rio_chunk headers \<and>
    sscanf3 (c_str bm) = [mm, km] \<and> strcasecmp_eq mm ''GET'' \<and>
    check_cache g km = Inr (None, gm) \<and> extract_uri km = Inr p \<and>
    net (host p) (port p) = Some chunks \<and> list_all rio_chunk chunks \<and>
    int (length (concat chunks)) \<le> INT_MAX \<and> I1 (global_cache g) \<and>
    list_all (\<lambda>e. 0 \<le> content_size e) (first (global_cache g)) \<and>
    current_size (global_cache g) \<le> INT_MAX"
  then have pr: "process_request g (bm # headers) net = serve_uri g km headers net"
    using process_request_get [of bm mm km "[]" g headers net] by simp
  have f: "fits km" using a token_fits [of bm mm km "[]"] by simp
  have "\<exists>g'. serve_uri g km headers net =
           Some (Inr (\<lparr>client_bytes = concat chunks, probed = Some km,
                        origin = Some (host p, port p,
                                       request_header p @ process_headers headers)\<rparr>, g')) \<and>
         (if int (length (concat chunks)) \<le> MAX_OBJECT_SIZE
          then \<exists>staged. add_to_cache g km staged (int (length (concat chunks))) = Some (Inr g')
          else g' = g)"
    using a by (intro serve_uri_miss [where gm = gm] f; simp)
  then show "\<exists>g'. process_request g (bm # headers) net =
               Some (Inr (\<lparr>client_bytes = concat chunks, probed = Some km,
                            origin = Some (host p, port p,
                                           request_header p @ process_headers headers)\<rparr>,
                          g')) \<and>
             (if int (length (concat chunks)) \<le> MAX_OBJECT_SIZE
              then \<exists>staged. add_to_cache g km staged (int (length (concat chunks))) =
                             Some (Inr g')
              else g' = g)"
    unfolding pr .
next
  assume a: "rio_chunk b1 \<and> sscanf3 (c_str b1) = m # tokens \<and> \<not> strcasecmp_eq m ''GET'' \<and>
    length m + 44 < MAXLINE"
  then obtain page where p: "send_error m ''501'' ''Not Implemented''
               ''This proxy only supports GET requests'' = Inr page"
    and s: "take 12 page = ''HTTP/1.0 501''"
    using send_error_501 [of m] by blast
  have "process_request g (b1 # headers) net =
          Some (Inr (\<lparr>client_bytes = page, probed = None, origin = None\<rparr>, g))"
    using a p by (simp add: process_request_def no_reply_def rio_chunk_def)
  with s show "\<exists>page. process_request g (b1 # headers) net =
                 Some (Inr (\<lparr>client_bytes = page, probed = None, origin = None\<rparr>, g)) \<and>
               take 12 page = ''HTTP/1.0 501''"
    by blast
qed

theorem request_line_tokens_witness:
  "rio_chunk (''GET http://h/x'' @ CRLF) \<and> rio_chunk (''GET http://h/x HTTP/1.0'' @ CRLF) \<and>
   list_all rio_chunk [CRLF] \<and>
   sscanf3 (c_str (''GET http://h/x'' @ CRLF)) = [''GET'', ''http://h/x''] \<and>
   sscanf3 (c_str (''GET http://h/x HTTP/1.0'' @ CRLF)) = [''GET'', ''http://h/x'', ''HTTP/1.0''] \<and>
   process_request init_globals [''GET http://h/x'' @ CRLF, CRLF] origin_AAAA =
     process_request init_globals [''GET http://h/x HTTP/1.0'' @ CRLF, CRLF] origin_AAAA \<and>
   strcasecmp_eq ''GET'' ''GET'' \<and>
   check_cache after_fetch ''http://h/x'' = Inr (Some 0, after_fetch_hit) \<and>
   process_request after_fetch [''GET http://h/x'' @ CRLF, CRLF] origin_AAAA =
     Some (Inr (\<lparr>client_bytes = ''AAAA'', probed = Some ''http://h/x'', origin = None\<rparr>,
                after_fetch_hit)) \<and>
   check_cache after_two_admits ''http://h/x'' = Inr (None, after_two_admits) \<and>
   extract_uri ''http://h/x'' = Inr parts_h \<and>
   origin_AAAA (host parts_h) (port parts_h) = Some [''AAAA''] \<and>
   list_all rio_chunk [''AAAA''] \<and> int (length (concat [''AAAA''])) \<le> INT_MAX \<and>
   I1 (global_cache after_two_admits) \<and>
   list_all (\<lambda>e. 0 \<le> content_size e) (first (global_cache after_two_admits)) \<and>
   current_size (global_cache after_two_admits) \<le> INT_MAX \<and>
   int (length (concat [''AAAA''])) \<le> MAX_OBJECT_SIZE \<and>
   (\<exists>g'. process_request after_two_admits [''GET http://h/x'' @ CRLF, CRLF] origin_AAAA =
            Some (Inr (\<lparr>client_bytes = concat [''AAAA''], probed = Some ''http://h/x'',
                         origin = Some (host parts_h, port parts_h,
                                        request_header parts_h @ process_headers [CRLF])\<rparr>,
                       g')) \<and>
          (\<exists>staged. add_to_cache after_two_admits ''http://h/x'' staged
                       (int (length (concat [''AAAA'']))) = Some (Inr g'))) \<and>
   rio_chunk (''POST'' @ CRLF) \<and> sscanf3 (c_str (''POST'' @ CRLF)) = [''POST''] \<and>
   \<not> strcasecmp_eq ''POST'' ''GET'' \<and> length ''POST'' + 44 < MAXLINE \<and>
   (\<exists>page. process_request after_fetch [''POST'' @ CRLF, CRLF] origin_AAAA =
              Some (Inr (\<lparr>client_bytes = page, probed = None, origin = None\<rparr>, after_fetch)) \<and>
            take 12 page = ''HTTP/1.0 501'')"
proof -
  note t2 = sscanf3_two_tokens and t3 = sscanf3_three_tokens and t1 = sscanf3_one_token
  note rc = rio_chunk_request_lines
  have hs: "list_all rio_chunk [CRLF]" using rc(4) by simp
  have get: "strcasecmp_eq ''GET'' ''GET''" by (simp add: strcasecmp_eq_def)
  have ng: "\<not> strcasecmp_eq ''POST'' ''GET''" by (simp add: strcasecmp_eq_def c_tolower_def)
  have ln: "length ''POST'' + 44 < MAXLINE" by (simp add: MAXLINE_def)
  have net: "origin_AAAA (host parts_h) (port parts_h) = Some [''AAAA'']"
    by (simp add: origin_AAAA_def)
  have ch: "list_all rio_chunk [''AAAA'']" using rc(5) by simp
  have len: "int (length (concat [''AAAA''])) \<le> INT_MAX" by (simp add: INT_MAX_def)
  have small: "int (length (concat [''AAAA''])) \<le> MAX_OBJECT_SIZE"
    by (simp add: MAX_OBJECT_SIZE_def)
  have inv: "I1 (global_cache after_two_admits)"
    "list_all (\<lambda>e. 0 \<le> content_size e) (first (global_cache after_two_admits))"
    "current_size (global_cache after_two_admits) \<le> INT_MAX"
    by (simp_all add: after_two_admits_def I1_def INT_MAX_def)
  from request_line_tokens [where ?b2.0 = "''GET http://h/x'' @ CRLF"
      and ?b3.0 = "''GET http://h/x HTTP/1.0'' @ CRLF" and ?m2.0 = "''GET''"
      and u = "''http://h/x''" and v = "''HTTP/1.0''" and g = init_globals
      and headers = "[CRLF]" and net = origin_AAAA]
    t2 t3 rc hs
  have a: "process_request init_globals [''GET http://h/x'' @ CRLF, CRLF] origin_AAAA =
     process_request init_globals [''GET http://h/x HTTP/1.0'' @ CRLF, CRLF] origin_AAAA"
    by blast
  from request_line_tokens [where bh = "''GET http://h/x'' @ CRLF" and mh = "''GET''"
      and kh = "''http://h/x''" and g = after_fetch and i = 0 and gh = after_fetch_hit
      and headers = "[CRLF]" and net = origin_AAAA]
    t2 rc get check_cache_fetched_hit
  have "process_request after_fetch [''GET http://h/x'' @ CRLF, CRLF] origin_AAAA =
     Some (Inr (\<lparr>client_bytes =
                    take (nat (content_size (first (global_cache after_fetch_hit) ! 0)))
                         (content (first (global_cache after_fetch_hit) ! 0)),
                  probed = Some ''http://h/x'', origin = None\<rparr>, after_fetch_hit))"
    by blast
  moreover have "take (nat (content_size (first (global_cache after_fetch_hit) ! 0)))
                      (content (first (global_cache after_fetch_hit) ! 0)) = ''AAAA''"
    by (simp add: after_fetch_hit_def)
  ultimately have b: "process_request after_fetch [''GET http://h/x'' @ CRLF, CRLF] origin_AAAA =
     Some (Inr (\<lparr>client_bytes = ''AAAA'', probed = Some ''http://h/x'', origin = None\<rparr>,
                after_fetch_hit))"
    by (simp only:)
  from request_line_tokens [where bm = "''GET http://h/x'' @ CRLF" and mm = "''GET''"
      and km = "''http://h/x''" and g = after_two_admits and gm = after_two_admits
      and p = parts_h and chunks = "[''AAAA'']" and headers = "[CRLF]" and net = origin_AAAA]
    t2 rc hs get check_cache_store_miss extract_uri_h_x net ch len inv
  have c0: "\<exists>g'. process_request after_two_admits [''GET http://h/x'' @ CRLF, CRLF] origin_AAAA =
            Some (Inr (\<lparr>client_bytes = concat [''AAAA''], probed = Some ''http://h/x'',
                         origin = Some (host parts_h, port parts_h,
                                        request_header parts_h @ process_headers [CRLF])\<rparr>,
                       g')) \<and>
          (if int (length (concat [''AAAA''])) \<le> MAX_OBJECT_SIZE
           then \<exists>staged. add_to_cache after_two_admits ''http://h/x'' staged
                          (int (length (concat [''AAAA'']))) = Some (Inr g')
           else g' = after_two_admits)"
    by blast
  have c: "\<exists>g'. process_request after_two_admits [''GET http://h/x'' @ CRLF, CRLF] origin_AAAA =
            Some (Inr (\<lparr>client_bytes = concat [''AAAA''], probed = Some ''http://h/x'',
                         origin = Some (host parts_h, port parts_h,
                                        request_header parts_h @ process_headers [CRLF])\<rparr>,
                       g')) \<and>
          (\<exists>staged. add_to_cache after_two_admits ''http://h/x'' staged
                       (int (length (concat [''AAAA'']))) = Some (Inr g'))"
    using c0 by (simp only: small if_True)
  from request_line_tokens [where ?b1.0 = "''POST'' @ CRLF" and m = "''POST''" and tokens = "[]"
      and g = after_fetch and headers = "[CRLF]" and net = origin_AAAA]
    t1 rc ng ln
  have d: "\<exists>page. process_request after_fetch [''POST'' @ CRLF, CRLF] origin_AAAA =
              Some (Inr (\<lparr>client_bytes = page, probed = None, origin = None\<rparr>, after_fetch)) \<and>
            take 12 page = ''HTTP/1.0 501''"
    by blast
  from a b c d t1 t2 t3 rc hs get ng ln net ch len small inv check_cache_fetched_hit
    check_cache_store_miss extract_uri_h_x
  show ?thesis by blast
qed

section \<open>A response of exactly MAX_OBJECT_SIZE bytes\<close>

lemma admits_truncated_body:
  "process_request init_globals [''GET http://h/x'' @ CRLF, CRLF] origin_100_lines =
     Some (Inr (\<lparr>client_bytes = concat (replicate 100 line1024), probed = Some ''http://h/x'',
                  origin = Some (''h'', ''80'',
                    ''GET /x HTTP/1.0'' @ CRLF @ ''Host: h'' @ CRLF @
                    user_agent @ connection_hdr @ proxy_connection @ CRLF)\<rparr>,
                \<lparr>global_cache =
                   \<lparr>first = [\<lparr>url = ''http://h/x'',
                               content = concat (replicate 99 line1024) @ replicate 1024 NUL,
                               content_size = 102400, access_time = 1\<rparr>],
                    current_size = 102400\<rparr>,
                 access_counter = 1\<rparr>))"
proof -
  have get: "strcasecmp_eq ''GET'' ''GET''" by (simp add: strcasecmp_eq_def)
  let ?buf = "concat (replicate 99 line1024) @ replicate 1024 NUL"
  have len99: "length (concat (replicate 99 line1024)) = 101376"
    by (simp add: length_concat_replicate line1024_def)
  have adm: "add_to_cache init_globals ''http://h/x'' ?buf 102400 =
      Some (Inr \<lparr>global_cache =
                   \<lparr>first = [\<lparr>url = ''http://h/x'', content = ?buf, content_size = 102400,
                               access_time = 1\<rparr>],
                    current_size = 102400\<rparr>,
                 access_counter = 1\<rparr>)"
    unfolding add_to_cache_def
    by (simp add: evict_loop.simps update_counter_def init_globals_def len99
        initialize_cache_def wrap32_def MAX_OBJECT_SIZE_def MAX_CACHE_SIZE_def fits_def MAXLINE_def
        del: replicate.simps)
  have ne: "''GET http://h/x'' @ CRLF \<noteq> []" by simp
  have "process_request init_globals [''GET http://h/x'' @ CRLF, CRLF] origin_100_lines =
          serve_uri init_globals ''http://h/x'' [CRLF] origin_100_lines"
    unfolding process_request_def list.case if_not_P [OF ne] sscanf3_two_tokens
    using get by simp
  also have "\<dots> = Some (Inr (\<lparr>client_bytes = concat (replicate 100 line1024), probed = Some ''http://h/x'',
                  origin = Some (''h'', ''80'',
                    ''GET /x HTTP/1.0'' @ CRLF @ ''Host: h'' @ CRLF @
                    user_agent @ connection_hdr @ proxy_connection @ CRLF)\<rparr>,
                \<lparr>global_cache =
                   \<lparr>first = [\<lparr>url = ''http://h/x'', content = ?buf, content_size = 102400,
                               access_time = 1\<rparr>],
                    current_size = 102400\<rparr>,
                 access_counter = 1\<rparr>))"
    unfolding serve_uri_def check_cache_init_miss extract_uri_h_x parts_h_def sum.case prod.case
      option.case origin_100_lines_def uri_parts.simps stream_100_lines Let_def tee.simps
      process_headers_none sum.case
    using adm by (simp add: MAX_OBJECT_SIZE_def)
  finally show ?thesis .
qed

text \<open>
  Claim C1 does not hold of the code. The loop copies a chunk into the staging buffer when
  \<^verbatim>\<open>total_size + n < MAX_OBJECT_SIZE\<close>, not \<^verbatim>\<open>\<le>\<close>, while the admission that follows accepts
  \<^verbatim>\<open>total_size \<le> MAX_OBJECT_SIZE\<close>. A response of 100 lines of 1024 bytes, 102400 bytes in
  all, reaches the client whole, but its last line never reaches the staging buffer, which
  keeps its initial zeros there; the response is admitted, and the node of the store holds
  the body with 1024 zeros at its end.
\<close>

theorem stream_response_drops_last_chunk:
  "stream_response (replicate 100 line1024) tee_init =
     Inr \<lparr>object_buffer = concat (replicate 99 line1024) @ replicate 1024 NUL,
          total_size = 102400,
          client_out = concat (replicate 100 line1024)\<rparr> \<and>
   (102400 :: int) \<le> MAX_OBJECT_SIZE \<and>
   take (nat 102400) (concat (replicate 99 line1024) @ replicate 1024 NUL)
     \<noteq> concat (replicate 100 line1024) \<and>
   process_request init_globals [''GET http://h/x'' @ CRLF, CRLF] origin_100_lines =
     Some (Inr (\<lparr>client_bytes = concat (replicate 100 line1024), probed = Some ''http://h/x'',
                  origin = Some (''h'', ''80'',
                    ''GET /x HTTP/1.0'' @ CRLF @ ''Host: h'' @ CRLF @
                    user_agent @ connection_hdr @ proxy_connection @ CRLF)\<rparr>,
                \<lparr>global_cache =
                   \<lparr>first = [\<lparr>url = ''http://h/x'',
                               content = concat (replicate 99 line1024) @ replicate 1024 NUL,
                               content_size = 102400, access_time = 1\<rparr>],
                    current_size = 102400\<rparr>,
                 access_counter = 1\<rparr>))"
proof -
  have "length (concat (replicate 99 line1024) @ replicate 1024 NUL) = 102400"
    by (simp add: length_concat_replicate line1024_def)
  then have e: "take (nat 102400) (concat (replicate 99 line1024) @ replicate 1024 NUL)
                  = concat (replicate 99 line1024) @ replicate 1024 NUL"
    by simp
  have a: "(102400 :: int) \<le> MAX_OBJECT_SIZE" by (simp add: MAX_OBJECT_SIZE_def)
  have b: "take (nat 102400) (concat (replicate 99 line1024) @ replicate 1024 NUL)
     \<noteq> concat (replicate 100 line1024)"
    unfolding e by (rule staging_differs)
  from stream_100_lines a b admits_truncated_body show ?thesis by blast
qed

section \<open>Keys\<close>

text \<open>
  Claim C3 as stated fails: \<^verbatim>\<open>add_to_cache\<close> never looks for the key, so admitting a key
  twice leaves two nodes with that key.
\<close>

theorem admit_same_key_twice:
  "run [Admit ''k'' ''ab'' 2, Admit ''k'' ''cd'' 2] init_globals =
     Some ([1, 2], \<lparr>global_cache = \<lparr>first = [\<lparr>url = ''k'', content = ''cd'', content_size = 2, access_time = 2\<rparr>,
                      \<lparr>url = ''k'', content = ''ab'', content_size = 2, access_time = 1\<rparr>], current_size = 4\<rparr>,
                    access_counter = 2\<rparr>) \<and>
   \<not> I4 \<lparr>first = [\<lparr>url = ''k'', content = ''cd'', content_size = 2, access_time = 2\<rparr>,
                      \<lparr>url = ''k'', content = ''ab'', content_size = 2, access_time = 1\<rparr>], current_size = 4\<rparr>"
  by (simp add: exec_def add_to_cache_def evict_loop.simps update_counter_def
      init_globals_def initialize_cache_def wrap32_def I4_def keys_def
      MAX_OBJECT_SIZE_def MAX_CACHE_SIZE_def fits_def MAXLINE_def)

lemma remove_oldest_I4: "I4 c \<Longrightarrow> I4 (remove_oldest c)"
proof -
  assume d: "I4 c"
  from remove_oldest_first [of c] show ?thesis
  proof
    assume "first c = [] \<and> first (remove_oldest c) = []"
    then show ?thesis by (simp add: I4_def keys_def)
  next
    assume "\<exists>i < length (first c). first (remove_oldest c) = take i (first c) @ drop (Suc i) (first c)"
    then obtain i where "first (remove_oldest c) = take i (first c) @ drop (Suc i) (first c)" by blast
    then show ?thesis using d distinct_remove_nth [of url "first c" i] by (simp add: I4_def keys_def)
  qed
qed

lemma remove_oldest_keys: "set (keys (remove_oldest c)) \<subseteq> set (keys c)"
  using remove_oldest_subset [of c] by (auto simp: keys_def)

lemma check_cache_keys:
  assumes "check_cache g uri = Inr (r, g')"
  shows "keys (global_cache g') = keys (global_cache g)"
proof -
  from check_cache_cases [OF assms] show ?thesis
  proof
    assume "r = None \<and> g' = g"
    then show ?thesis by simp
  next
    assume "\<exists>i < length (first (global_cache g)). r = Some i \<and>
            g' = \<lparr>global_cache = (global_cache g)\<lparr>first :=
                      (first (global_cache g))[i := (first (global_cache g) ! i)
                          \<lparr>access_time := wrap32 (access_counter g + 1)\<rparr>]\<rparr>,
                   access_counter = wrap32 (access_counter g + 1)\<rparr>"
    then obtain i where g': "g' = \<lparr>global_cache = (global_cache g)\<lparr>first :=
                      (first (global_cache g))[i := (first (global_cache g) ! i)
                          \<lparr>access_time := wrap32 (access_counter g + 1)\<rparr>]\<rparr>,
                   access_counter = wrap32 (access_counter g + 1)\<rparr>" by blast
    have "map url ((first (global_cache g))[i := (first (global_cache g) ! i)
                          \<lparr>access_time := wrap32 (access_counter g + 1)\<rparr>])
             = map url (first (global_cache g))"
      by (rule map_update_same) simp
    then show ?thesis by (simp add: g' keys_def)
  qed
qed

lemma add_to_cache_I4:
  assumes a: "add_to_cache g uri buffer sz = Some (Inr g')"
    and d: "I4 (global_cache g)" and new: "uri \<notin> set (keys (global_cache g))"
  shows "I4 (global_cache g')"
proof -
  from add_to_cache_cases [OF a] show ?thesis
  proof
    assume "sz > MAX_OBJECT_SIZE \<and> g' = g"
    with d show ?thesis by simp
  next
    assume "sz \<le> MAX_OBJECT_SIZE \<and> 0 \<le> sz \<and> fits uri \<and>
          (\<exists>c'. evict_loop (global_cache g) sz = Some c' \<and>
             g' = \<lparr>global_cache = c'\<lparr>first :=
                        \<lparr>url = uri, content = take (nat sz) buffer, content_size = sz,
                          access_time = wrap32 (access_counter g + 1)\<rparr> # first c',
                        current_size := wrap32 (current_size c' + sz)\<rparr>,
                    access_counter = wrap32 (access_counter g + 1)\<rparr>)"
    then obtain c' where ev: "evict_loop (global_cache g) sz = Some c'"
      and g': "g' = \<lparr>global_cache = c'\<lparr>first :=
                        \<lparr>url = uri, content = take (nat sz) buffer, content_size = sz,
                          access_time = wrap32 (access_counter g + 1)\<rparr> # first c',
                        current_size := wrap32 (current_size c' + sz)\<rparr>,
                    access_counter = wrap32 (access_counter g + 1)\<rparr>"
      by blast
    have step: "\<And>d. I4 d \<and> uri \<notin> set (keys d) \<Longrightarrow>
                  I4 (remove_oldest d) \<and> uri \<notin> set (keys (remove_oldest d))"
      using remove_oldest_I4 remove_oldest_keys by blast
    from evict_loop_rule [of "global_cache g" sz c' "\<lambda>d. I4 d \<and> uri \<notin> set (keys d)", OF ev _ step] d new
    have "I4 c'" "uri \<notin> set (keys c')" by simp_all
    then show ?thesis by (simp add: g' I4_def keys_def)
  qed
qed

lemma serve_uri_I4:
  assumes "serve_uri g uri headers net = Some (Inr (r, g'))" and "I4 (global_cache g)"
  shows "I4 (global_cache g')"
proof (cases "check_cache g uri")
  case (Inl f)
  with assms(1) show ?thesis by (simp add: serve_uri_def)
next
  case (Inr res)
  obtain hit g1 where res: "res = (hit, g1)" by (cases res)
  have k1: "keys (global_cache g1) = keys (global_cache g)"
    using check_cache_keys Inr res by blast
  show ?thesis
  proof (cases hit)
    case (Some i)
    with Inr res assms(1) have "g' = g1" by (simp add: serve_uri_def Let_def)
    with k1 assms(2) show ?thesis by (simp add: I4_def)
  next
    case None
    with Inr res check_cache_miss have g1: "g1 = g" and new: "uri \<notin> set (keys (global_cache g))"
      by blast+
    show ?thesis
    proof (cases "g' = g")
      case True
      with assms(2) show ?thesis by simp
    next
      case False
      with Inr res None g1 assms(1)
      obtain buffer sz where "add_to_cache g uri buffer sz = Some (Inr g')"
        by (auto simp: serve_uri_def Let_def split: sum.splits option.splits if_splits)
      from add_to_cache_I4 [OF this assms(2) new] show ?thesis .
    qed
  qed
qed

lemma process_request_I4:
  assumes "process_request g client_rio net = Some (Inr (r, g'))" and "I4 (global_cache g)"
  shows "I4 (global_cache g')"
proof (cases "g' = g")
  case True
  with assms(2) show ?thesis by simp
next
  case False
  with assms(1) obtain uri headers where "serve_uri g uri headers net = Some (Inr (r, g'))"
    by (auto simp: process_request_def split: list.splits if_splits sum.splits)
  from serve_uri_I4 [OF this assms(2)] show ?thesis .
qed

text \<open>
  \<^verbatim>\<open>add_to_cache\<close> never searches for the key: the node it makes is put in front of the
  nodes that its eviction loop left, whatever their keys.
\<close>

lemma add_to_cache_keys:
  assumes a: "add_to_cache g uri buffer sz = Some (Inr g')" and sz: "sz \<le> MAX_OBJECT_SIZE"
    and d: "I4 (global_cache g)"
  shows "\<exists>c. evict_loop (global_cache g) sz = Some c \<and> I4 c \<and>
             set (keys c) \<subseteq> set (keys (global_cache g)) \<and>
             keys (global_cache g') = uri # keys c"
proof -
  from add_to_cache_cases [OF a] sz
  obtain c' where ev: "evict_loop (global_cache g) sz = Some c'"
    and g': "g' = \<lparr>global_cache = c'\<lparr>first :=
                      \<lparr>url = uri, content = take (nat sz) buffer, content_size = sz,
                        access_time = wrap32 (access_counter g + 1)\<rparr> # first c',
                      current_size := wrap32 (current_size c' + sz)\<rparr>,
                  access_counter = wrap32 (access_counter g + 1)\<rparr>"
    by auto
  have step: "\<And>e. I4 e \<and> set (keys e) \<subseteq> set (keys (global_cache g)) \<Longrightarrow>
                I4 (remove_oldest e) \<and> set (keys (remove_oldest e)) \<subseteq> set (keys (global_cache g))"
    using remove_oldest_I4 remove_oldest_keys by blast
  from evict_loop_rule [of "global_cache g" sz c'
      "\<lambda>e. I4 e \<and> set (keys e) \<subseteq> set (keys (global_cache g))", OF ev _ step] d
  have "I4 c'" "set (keys c') \<subseteq> set (keys (global_cache g))" by simp_all
  moreover have "keys (global_cache g') = uri # keys c'" by (simp add: g' keys_def)
  ultimately show ?thesis using ev by blast
qed

lemma add_to_cache_I4_iff:
  assumes a: "add_to_cache g uri buffer sz = Some (Inr g')" and sz: "sz \<le> MAX_OBJECT_SIZE"
    and d: "I4 (global_cache g)"
  shows "\<exists>c. evict_loop (global_cache g) sz = Some c \<and> I4 c \<and>
             set (keys c) \<subseteq> set (keys (global_cache g)) \<and>
             keys (global_cache g') = uri # keys c \<and>
             I4 (global_cache g') = (uri \<notin> set (keys c))"
proof -
  from add_to_cache_keys [OF a sz d]
  obtain c where c: "evict_loop (global_cache g) sz = Some c" "I4 c"
    "set (keys c) \<subseteq> set (keys (global_cache g))" "keys (global_cache g') = uri # keys c"
    by blast
  then have "I4 (global_cache g') = (uri \<notin> set (keys c))" by (simp add: I4_def)
  with c show ?thesis by blast
qed

lemma admit_present_key:
  "add_to_cache after_two_admits ''k'' ''cd'' 2 = Some (Inr after_second_k)"
  by (simp add: add_to_cache_def evict_loop.simps update_counter_def after_two_admits_def
      after_second_k_def wrap32_def MAX_OBJECT_SIZE_def MAX_CACHE_SIZE_def fits_def MAXLINE_def)

lemma no_eviction_after_two_admits:
  "evict_loop (global_cache after_two_admits) 2 = Some (global_cache after_two_admits)"
  by (simp add: evict_loop.simps after_two_admits_def wrap32_def MAX_CACHE_SIZE_def)

text \<open>
  A full store of ten nodes of 100000 bytes: admitting 102400 bytes under the key of the
  oldest node evicts that node first, and the key is in the store once.
\<close>

lemma remove_oldest_full_store: "remove_oldest (global_cache full_store) = evicted_store"
  by (simp add: remove_oldest_def full_store_def wrap32_def evicted_store_def Let_def
      del: replicate.simps)

lemma evict_loop_full_store: "evict_loop (global_cache full_store) 102400 = Some evicted_store"
  apply (subst evict_loop.simps)
  apply (simp add: remove_oldest_full_store del: replicate.simps)
  apply (subst evict_loop.simps)
  apply (simp add: full_store_def evicted_store_def wrap32_def MAX_CACHE_SIZE_def
      del: replicate.simps)
  done

lemma readmit_oldest_key:
  "add_to_cache full_store ''/o0'' (replicate 102400 (CHR ''y'')) 102400 =
     Some (Inr after_readmit)"
  unfolding add_to_cache_def evict_loop_full_store
  by (simp add: update_counter_def after_readmit_def evicted_store_def full_store_def wrap32_def
      MAX_OBJECT_SIZE_def fits_def MAXLINE_def del: replicate.simps)

lemma keys_full_store:
  "keys (global_cache full_store) =
     [''/o9'', ''/o8'', ''/o7'', ''/o6'', ''/o5'', ''/o4'', ''/o3'', ''/o2'', ''/o1'', ''/o0'']"
  "keys evicted_store =
     [''/o9'', ''/o8'', ''/o7'', ''/o6'', ''/o5'', ''/o4'', ''/o3'', ''/o2'', ''/o1'']"
  by (simp_all add: keys_def full_store_def evicted_store_def)

lemma hit_on_fetched:
  "process_request after_fetch [''GET http://h/x HTTP/1.0'' @ CRLF, CRLF] origin_AAAA =
     Some (Inr (\<lparr>client_bytes = ''AAAA'', probed = Some ''http://h/x'', origin = None\<rparr>,
                after_fetch_hit))"
proof -
  have get: "strcasecmp_eq ''GET'' ''GET''" by (simp add: strcasecmp_eq_def)
  have "process_request after_fetch [''GET http://h/x HTTP/1.0'' @ CRLF, CRLF] origin_AAAA =
          serve_uri after_fetch ''http://h/x'' [CRLF] origin_AAAA"
    by (rule process_request_get [OF rio_chunk_request_lines(2) sscanf3_three_tokens get])
  then show ?thesis
    by (simp add: serve_uri_hit [OF check_cache_fetched_hit] after_fetch_hit_def)
qed

text \<open>
  Claim C3, amended. A lookup and an eviction keep the keys of the store distinct, and so
  does the admission of a key that no node of the store has. \<^verbatim>\<open>process_request\<close> admits a
  key only after the lookup of that key found no node, so a run of it keeps the keys
  distinct as well. \<^verbatim>\<open>add_to_cache\<close> itself never searches for the key: an admission of at
  most \<^verbatim>\<open>MAX_OBJECT_SIZE\<close> bytes that returns puts the new node in front of the nodes that
  its eviction loop left, which are nodes of the store before and have distinct keys when
  the store had; so the keys after the admission are distinct exactly when the eviction
  loop left no node with the admitted key, and an admission whose key is still in the
  store after the evictions leaves two nodes with that key.
\<close>

theorem unique_keys_preserved:
  "(I4 (global_cache g) \<and> check_cache g uri = Inr (r, g') \<longrightarrow> I4 (global_cache g')) \<and>
   (I4 c \<longrightarrow> I4 (remove_oldest c)) \<and>
   (I4 (global_cache g) \<and> key \<notin> set (keys (global_cache g)) \<and>
      add_to_cache g key buffer sz = Some (Inr g'') \<longrightarrow> I4 (global_cache g'')) \<and>
   (I4 (global_cache g) \<and> process_request g client_rio net = Some (Inr (rep, g3)) \<longrightarrow>
      I4 (global_cache g3)) \<and>
   (I4 (global_cache g) \<and> sz4 \<le> MAX_OBJECT_SIZE \<and>
      add_to_cache g key4 buffer4 sz4 = Some (Inr g4) \<longrightarrow>
      (\<exists>c4. evict_loop (global_cache g) sz4 = Some c4 \<and> I4 c4 \<and>
             set (keys c4) \<subseteq> set (keys (global_cache g)) \<and>
             keys (global_cache g4) = key4 # keys c4 \<and>
             I4 (global_cache g4) = (key4 \<notin> set (keys c4))))"
proof (intro conjI impI)
  assume "I4 (global_cache g) \<and> check_cache g uri = Inr (r, g')"
  then show "I4 (global_cache g')" using check_cache_keys [of g uri r g'] by (simp add: I4_def)
next
  assume "I4 c"
  then show "I4 (remove_oldest c)" by (rule remove_oldest_I4)
next
  assume "I4 (global_cache g) \<and> key \<notin> set (keys (global_cache g)) \<and>
      add_to_cache g key buffer sz = Some (Inr g'')"
  then show "I4 (global_cache g'')" using add_to_cache_I4 [of g key buffer sz g''] by simp
next
  assume "I4 (global_cache g) \<and> process_request g client_rio net = Some (Inr (rep, g3))"
  then show "I4 (global_cache g3)" using process_request_I4 [of g client_rio net rep g3] by simp
next
  assume "I4 (global_cache g) \<and> sz4 \<le> MAX_OBJECT_SIZE \<and>
      add_to_cache g key4 buffer4 sz4 = Some (Inr g4)"
  then show "\<exists>c4. evict_loop (global_cache g) sz4 = Some c4 \<and> I4 c4 \<and>
             set (keys c4) \<subseteq> set (keys (global_cache g)) \<and>
             keys (global_cache g4) = key4 # keys c4 \<and>
             I4 (global_cache g4) = (key4 \<notin> set (keys c4))"
    using add_to_cache_I4_iff [of g key4 buffer4 sz4 g4] by simp
qed

theorem unique_keys_preserved_witness:
  "I4 (global_cache after_two_admits) \<and>
   check_cache after_two_admits ''k'' = Inr (Some 1, after_hit) \<and>
   I4 (global_cache after_hit) \<and>
   I4 (remove_oldest (global_cache after_two_admits)) \<and>
   ''i'' \<notin> set (keys (global_cache after_two_admits)) \<and>
   add_to_cache after_two_admits ''i'' ''a'' 1 = Some (Inr after_third_admit) \<and>
   I4 (global_cache after_third_admit) \<and>
   process_request after_two_admits [''GET http://h/x HTTP/1.0'' @ CRLF, CRLF] origin_AAAA =
     Some (Inr (\<lparr>client_bytes = ''AAAA'', probed = Some ''http://h/x'',
                  origin = Some (''h'', ''80'',
                    ''GET /x HTTP/1.0'' @ CRLF @ ''Host: h'' @ CRLF @
                    user_agent @ connection_hdr @ proxy_connection @ CRLF)\<rparr>,
                after_store_fetch)) \<and>
   I4 (global_cache after_store_fetch) \<and>
   keys (global_cache after_store_fetch) = [''http://h/x'', ''j'', ''k''] \<and>
   I4 (global_cache after_fetch) \<and>
   process_request after_fetch [''GET http://h/x HTTP/1.0'' @ CRLF, CRLF] origin_AAAA =
     Some (Inr (\<lparr>client_bytes = ''AAAA'', probed = Some ''http://h/x'', origin = None\<rparr>,
                after_fetch_hit)) \<and>
   I4 (global_cache after_fetch_hit) \<and>
   keys (global_cache after_fetch_hit) = [''http://h/x''] \<and>
   (2::int) \<le> MAX_OBJECT_SIZE \<and>
   add_to_cache after_two_admits ''k'' ''cd'' 2 = Some (Inr after_second_k) \<and>
   evict_loop (global_cache after_two_admits) 2 = Some (global_cache after_two_admits) \<and>
   keys (global_cache after_second_k) = [''k'', ''j'', ''k''] \<and>
   \<not> I4 (global_cache after_second_k) \<and>
   I4 (global_cache full_store) \<and> (102400::int) \<le> MAX_OBJECT_SIZE \<and>
   ''/o0'' \<in> set (keys (global_cache full_store)) \<and>
   add_to_cache full_store ''/o0'' (replicate 102400 (CHR ''y'')) 102400 =
     Some (Inr after_readmit) \<and>
   evict_loop (global_cache full_store) 102400 = Some evicted_store \<and>
   ''/o0'' \<notin> set (keys evicted_store) \<and>
   keys (global_cache after_readmit) = ''/o0'' # keys evicted_store \<and>
   I4 (global_cache after_readmit)"
proof -
  have d: "I4 (global_cache after_two_admits)"
    by (simp add: after_two_admits_def I4_def keys_def)
  have n: "''i'' \<notin> set (keys (global_cache after_two_admits))"
    by (simp add: after_two_admits_def keys_def)
  have d1: "I4 (global_cache after_fetch)"
    by (simp add: after_fetch_def I4_def keys_def)
  have sz: "(2::int) \<le> MAX_OBJECT_SIZE" by (simp add: MAX_OBJECT_SIZE_def)
  have k: "keys (global_cache after_two_admits) = [''j'', ''k'']"
    "keys (global_cache after_store_fetch) = [''http://h/x'', ''j'', ''k'']"
    "keys (global_cache after_fetch_hit) = [''http://h/x'']"
    by (simp_all add: after_two_admits_def after_store_fetch_def after_fetch_hit_def keys_def)
  from unique_keys_preserved [where g = after_two_admits and uri = "''k''" and r = "Some 1"
      and g' = after_hit and c = "global_cache after_two_admits" and key = "''i''"
      and buffer = "''a''" and sz = 1 and g'' = after_third_admit
      and client_rio = "[''GET http://h/x HTTP/1.0'' @ CRLF, CRLF]" and net = origin_AAAA
      and ?g3.0 = after_store_fetch and ?sz4.0 = 2 and ?key4.0 = "''k''"
      and ?buffer4.0 = "''cd''" and ?g4.0 = after_second_k]
    d n sz hit_after_two_admits admit_after_two_admits fetch_into_store admit_present_key
  have a: "I4 (global_cache after_hit)" "I4 (remove_oldest (global_cache after_two_admits))"
    "I4 (global_cache after_third_admit)" "I4 (global_cache after_store_fetch)"
    and e: "\<exists>c4. evict_loop (global_cache after_two_admits) 2 = Some c4 \<and> I4 c4 \<and>
             set (keys c4) \<subseteq> set (keys (global_cache after_two_admits)) \<and>
             keys (global_cache after_second_k) = ''k'' # keys c4 \<and>
             I4 (global_cache after_second_k) = (''k'' \<notin> set (keys c4))"
    by blast+
  from e no_eviction_after_two_admits k(1)
  have dup: "keys (global_cache after_second_k) = [''k'', ''j'', ''k'']"
    "\<not> I4 (global_cache after_second_k)"
    by auto
  from unique_keys_preserved [where g = after_fetch
      and client_rio = "[''GET http://h/x HTTP/1.0'' @ CRLF, CRLF]" and net = origin_AAAA
      and ?g3.0 = after_fetch_hit] d1 hit_on_fetched
  have b: "I4 (global_cache after_fetch_hit)" by blast
  have d2: "I4 (global_cache full_store)" by (simp add: I4_def keys_full_store)
  have sz2: "(102400::int) \<le> MAX_OBJECT_SIZE" by (simp add: MAX_OBJECT_SIZE_def)
  have old: "''/o0'' \<in> set (keys (global_cache full_store))"
    "''/o0'' \<notin> set (keys evicted_store)"
    by (simp_all add: keys_full_store)
  from unique_keys_preserved [where g = full_store and ?sz4.0 = 102400 and ?key4.0 = "''/o0''"
      and ?buffer4.0 = "replicate 102400 (CHR ''y'')" and ?g4.0 = after_readmit]
    d2 sz2 readmit_oldest_key
  have "\<exists>c4. evict_loop (global_cache full_store) 102400 = Some c4 \<and> I4 c4 \<and>
             set (keys c4) \<subseteq> set (keys (global_cache full_store)) \<and>
             keys (global_cache after_readmit) = ''/o0'' # keys c4 \<and>
             I4 (global_cache after_readmit) = (''/o0'' \<notin> set (keys c4))"
    by blast
  with evict_loop_full_store old(2)
  have re: "keys (global_cache after_readmit) = ''/o0'' # keys evicted_store"
    "I4 (global_cache after_readmit)"
    by auto
  from a b d n d1 sz k dup hit_after_two_admits admit_after_two_admits fetch_into_store
    admit_present_key hit_on_fetched no_eviction_after_two_admits
    d2 sz2 old re readmit_oldest_key evict_loop_full_store
  show ?thesis by blast
qed

end
